theory Spec2Isabelle
  imports Main "HOL-Library.Word"
begin

section \<open>Machine integers and the C library\<close>

text \<open>
  A C \<^verbatim>\<open>int\<close> is a 32-bit word read in two's complement (\<open>sint\<close>); comparisons of
  \<^verbatim>\<open>int\<close>s are the signed ones (\<open><s\<close>). \<^verbatim>\<open>uint64_t\<close>, \<^verbatim>\<open>time_t\<close> and \<^verbatim>\<open>long\<close> are
  64-bit words. Signed overflow is undefined in C; the words wrap around, as the usual
  targets do, and every statement below that depends on a product or a sum says in its
  hypotheses that it does not overflow.
\<close>

type_synonym cint = "32 word"
type_synonym u64 = "64 word"

text \<open>
  \<^verbatim>\<open>atoi\<close> belongs to the C library: white space is skipped, then an optional sign and
  the longest run of decimal digits are read; without digits the result is 0. As in
  glibc, \<^verbatim>\<open>atoi\<close> is \<^verbatim>\<open>(int) strtol (s, NULL, 10)\<close>: a value outside the range of a 64-bit
  \<^verbatim>\<open>long\<close> becomes the nearest bound of that range, and the conversion to \<^verbatim>\<open>int\<close> keeps the
  low 32 bits.
\<close>

definition is_space :: "char \<Rightarrow> bool" where
  "is_space c \<longleftrightarrow> (of_char c :: nat) \<in> {32, 9, 10, 11, 12, 13}"

definition is_digit :: "char \<Rightarrow> bool" where
  "is_digit c \<longleftrightarrow> 48 \<le> (of_char c :: nat) \<and> (of_char c :: nat) \<le> 57"

fun digits_val :: "int \<Rightarrow> string \<Rightarrow> int" where
  "digits_val acc [] = acc"
| "digits_val acc (c # cs) =
     (if is_digit c then digits_val (acc * 10 + (int (of_char c) - 48)) cs else acc)"

definition strtol_sat :: "int \<Rightarrow> int" where
  "strtol_sat v =
     (if v < - (2 ^ 63) then - (2 ^ 63) else if 2 ^ 63 - 1 < v then 2 ^ 63 - 1 else v)"

definition atoi :: "string \<Rightarrow> cint" where
  "atoi s =
     (case dropWhile is_space s of
        [] \<Rightarrow> 0
      | c # cs \<Rightarrow>
          if c = CHR ''-'' then word_of_int (strtol_sat (- digits_val 0 cs))
          else if c = CHR ''+'' then word_of_int (strtol_sat (digits_val 0 cs))
          else word_of_int (strtol_sat (digits_val 0 (c # cs))))"

lemma atoi_out_of_range:
  "atoi ''99999999999999999999'' = - 1"
  "atoi ''-99999999999999999999'' = 0"
  "atoi ''4294967297'' = 1"
  by (simp_all add: atoi_def strtol_sat_def is_space_def is_digit_def)

section \<open>The coordinator-worker step engine (demo/mpi/hello\_mpi.c)\<close>

text \<open>
  Every rank is a process of its own that runs \<^verbatim>\<open>main\<close>: it has its own copy of the
  static \<^verbatim>\<open>counter\<close> and of every local variable. The processes meet only in the two
  collectives, \<^verbatim>\<open>MPI_Bcast\<close> and \<^verbatim>\<open>MPI_Gather\<close>, both rooted at rank 0. A world is the list
  of its processes in rank order; one round of the loop is taken by all of them together.
  What a process prints and how long it sleeps is recorded in its trace.
\<close>

datatype mpi_event =
    Printf_start cint string
  | Printf_step cint "cint list" "cint option"
  | Usleep "32 word"
  | Printf_finish cint

record proc =
  rank :: cint
  size_mpi :: cint
  counter :: cint
  max_steps :: cint
  sleep_ms :: cint
  my_value :: cint
  gather_buf :: "cint list option"
  trace :: "mpi_event list"

text \<open>Lines 21-26: the configuration read from the environment, with its clamps.\<close>

definition read_max_steps :: "(string \<rightharpoonup> string) \<Rightarrow> cint" where
  "read_max_steps env =
     (case env ''MAX_STEPS'' of
        None \<Rightarrow> 120
      | Some v \<Rightarrow> (let m = atoi v in if m <s 1 then 1 else m))"

definition read_sleep_ms :: "(string \<rightharpoonup> string) \<Rightarrow> cint" where
  "read_sleep_ms env =
     (case env ''SLEEP_MS'' of
        None \<Rightarrow> 1000
      | Some v \<Rightarrow> (let m = atoi v in if m <s 0 then 0 else m))"

text \<open>
  Lines 7-31: the state of a process when it reaches the loop. Only rank 0 prints the
  start line and allocates the gather buffer (\<^verbatim>\<open>malloc\<close> is taken to succeed; the
  buffer's cells are written by the first gather before they are read).
\<close>

definition main_init :: "cint \<Rightarrow> cint \<Rightarrow> string \<Rightarrow> (string \<rightharpoonup> string) \<Rightarrow> proc" where
  "main_init r n hostname env =
     \<lparr> rank = r, size_mpi = n, counter = 0,
       max_steps = read_max_steps env,
       sleep_ms = read_sleep_ms env,
       my_value = 0,
       gather_buf = (if r = 0 then Some (replicate (nat (sint n)) 0) else None),
       trace = (if r = 0 then [Printf_start n hostname] else []) \<rparr>"

text \<open>Line 40, with \<open>step\<close> the value the broadcast left in the process.\<close>

definition compute_value :: "cint \<Rightarrow> proc \<Rightarrow> proc" where
  "compute_value step p = p\<lparr>my_value := rank p * (step + 1)\<rparr>"

text \<open>Lines 48-56: the summary line of rank 0, at most 8 values and the number left out.\<close>

definition print_summary :: "cint \<Rightarrow> proc \<Rightarrow> proc" where
  "print_summary step p =
     (let limit = (if size_mpi p <s 8 then size_mpi p else 8);
          shown = take (nat (sint limit)) (case gather_buf p of None \<Rightarrow> [] | Some b \<Rightarrow> b);
          elided = (if limit <s size_mpi p then Some (size_mpi p - limit) else None)
      in p\<lparr>trace := trace p @ [Printf_step step shown elided]\<rparr>)"

text \<open>Line 59: the pacing delay; the argument of \<^verbatim>\<open>usleep\<close> is an unsigned 32-bit value.\<close>

definition pace :: "proc \<Rightarrow> proc" where
  "pace p = (if 0 <s sleep_ms p then p\<lparr>trace := trace p @ [Usleep (sleep_ms p * 1000)]\<rparr> else p)"

text \<open>
  Lines 43-59 and the \<^verbatim>\<open>counter++\<close> of line 33, for one process: \<open>gathered\<close> is what
  \<^verbatim>\<open>MPI_Gather\<close> delivers, and it is stored at the root only.
\<close>

definition report_and_advance :: "cint \<Rightarrow> cint list \<Rightarrow> proc \<Rightarrow> proc" where
  "report_and_advance step gathered p =
     (let p1 = (if rank p = 0 then print_summary step (p\<lparr>gather_buf := Some gathered\<rparr>) else p);
          p2 = pace p1
      in p2\<lparr>counter := counter p2 + 1\<rparr>)"

text \<open>
  One round of the loop body in every process. \<^verbatim>\<open>MPI_Bcast\<close> gives each process the
  \<open>step\<close> of rank 0, which is the \<open>counter\<close> of rank 0; \<^verbatim>\<open>MPI_Gather\<close> collects the
  values in rank order.
\<close>

definition gather :: "proc list \<Rightarrow> cint list" where
  "gather ps = map my_value ps"

definition world_step :: "proc list \<Rightarrow> proc list" where
  "world_step ps =
     (let step = counter (hd ps);
          ps1 = map (compute_value step) ps
      in map (report_and_advance step (gather ps1)) ps1)"

text \<open>
  The loop of line 33. Each process tests its own \<open>counter\<close> against its own
  \<open>max_steps\<close>. When some processes leave the loop while others enter the next
  collective, the collective never completes: the run does not return (\<open>None\<close>).
\<close>

function mpi_loop :: "proc list \<Rightarrow> proc list option" where
  "mpi_loop ps =
     (if ps = [] then Some []
      else if list_all (\<lambda>p. counter p <s max_steps p) ps then mpi_loop (world_step ps)
      else if list_all (\<lambda>p. \<not> counter p <s max_steps p) ps then Some ps
      else None)"
  by pat_completeness auto

lemma sint_succ_less:
  fixes c m :: cint
  assumes "c <s m"
  shows "sint (c + 1) = sint c + 1"
proof -
  have "sint m < 2 ^ 31" using sint_lt [of m] by simp
  moreover have "- (2 ^ 31) \<le> sint c" using sint_ge [of c] by simp
  ultimately have "- (2 ^ 31) \<le> sint c + 1 \<and> sint c + 1 < 2 ^ 31"
    using assms by (simp add: word_sless_alt)
  then have "signed_take_bit 31 (sint c + 1) = sint c + 1"
    by (simp add: signed_take_bit_int_eq_self)
  then show ?thesis
    by (simp add: sint_word_ariths)
qed

lemma counter_report_and_advance:
  "counter (report_and_advance s g p) = counter p + 1"
  by (simp add: report_and_advance_def pace_def print_summary_def Let_def)

lemma max_steps_report_and_advance:
  "max_steps (report_and_advance s g p) = max_steps p"
  by (simp add: report_and_advance_def pace_def print_summary_def Let_def)

lemma world_step_Cons:
  "world_step (p # ps) =
     report_and_advance (counter p) (gather (map (compute_value (counter p)) (p # ps)))
       (compute_value (counter p) p)
     # map (report_and_advance (counter p) (gather (map (compute_value (counter p)) (p # ps))))
         (map (compute_value (counter p)) ps)"
  by (simp add: world_step_def Let_def)

termination mpi_loop
proof (relation "measure (\<lambda>ps. case ps of [] \<Rightarrow> 0 | p # _ \<Rightarrow> nat (sint (max_steps p) - sint (counter p)))")
  show "wf (measure (\<lambda>ps. case ps of [] \<Rightarrow> 0 | p # _ \<Rightarrow> nat (sint (max_steps p) - sint (counter p))))"
    by simp
next
  fix ps :: "proc list"
  assume ne: "ps \<noteq> []" and all: "list_all (\<lambda>p. counter p <s max_steps p) ps"
  then obtain p qs where ps: "ps = p # qs" by (cases ps) auto
  with all have lt: "counter p <s max_steps p" by simp
  have "sint (counter p + 1) = sint (counter p) + 1"
    by (rule sint_succ_less [OF lt])
  moreover have "sint (counter p) < sint (max_steps p)"
    using lt by (simp add: word_sless_alt)
  ultimately show "(world_step ps, ps) \<in> measure (\<lambda>ps. case ps of [] \<Rightarrow> 0 | p # _ \<Rightarrow> nat (sint (max_steps p) - sint (counter p)))"
    by (simp add: ps world_step_Cons counter_report_and_advance max_steps_report_and_advance
        compute_value_def)
qed

declare mpi_loop.simps [simp del]

text \<open>Lines 62-66: the finish line of rank 0 and the release of the buffer.\<close>

definition finish :: "proc \<Rightarrow> proc" where
  "finish p =
     (let p1 = (if rank p = 0 then p\<lparr>trace := trace p @ [Printf_finish (counter p)]\<rparr> else p)
      in p1\<lparr>gather_buf := None\<rparr>)"

text \<open>
  A fresh run of \<open>n\<close> processes, and a whole run. The host name and the environment may
  differ from process to process.
\<close>

definition mpi_world :: "nat \<Rightarrow> (nat \<Rightarrow> string) \<Rightarrow> (nat \<Rightarrow> (string \<rightharpoonup> string)) \<Rightarrow> proc list" where
  "mpi_world n hosts envs = map (\<lambda>r. main_init (of_nat r) (of_nat n) (hosts r) (envs r)) [0..<n]"

definition mpi_run :: "proc list \<Rightarrow> proc list option" where
  "mpi_run ps = map_option (map finish) (mpi_loop ps)"

section \<open>Worlds in lockstep\<close>

text \<open>
  All processes of a world started by one launcher share the counter, the bound and the
  delay, and rank \<open>r\<close> is the \<open>r\<close>-th process. An MPI world has at least one and fewer
  than \<open>2 ^ 31\<close> processes, its size being an \<^verbatim>\<open>int\<close>.
\<close>

definition lockstep :: "cint \<Rightarrow> cint \<Rightarrow> cint \<Rightarrow> proc list \<Rightarrow> bool" where
  "lockstep c m sl ps \<longleftrightarrow>
     ps \<noteq> [] \<and> length ps < 2 ^ 31 \<and>
     list_all (\<lambda>(r, p). rank p = of_nat r \<and> size_mpi p = of_nat (length ps) \<and>
                 counter p = c \<and> max_steps p = m \<and> sleep_ms p = sl)
       (zip [0..<length ps] ps)"

lemma lockstep_nth:
  assumes "lockstep c m sl ps" and "r < length ps"
  shows "rank (ps ! r) = of_nat r" and "size_mpi (ps ! r) = of_nat (length ps)"
    and "counter (ps ! r) = c" and "max_steps (ps ! r) = m" and "sleep_ms (ps ! r) = sl"
proof -
  have "(r, ps ! r) \<in> set (zip [0..<length ps] ps)"
    using assms(2) by (auto simp: in_set_zip intro!: exI [of _ r])
  with assms(1) have "rank (ps ! r) = of_nat r \<and> size_mpi (ps ! r) = of_nat (length ps) \<and>
      counter (ps ! r) = c \<and> max_steps (ps ! r) = m \<and> sleep_ms (ps ! r) = sl"
    unfolding lockstep_def list_all_iff by blast
  then show "rank (ps ! r) = of_nat r" and "size_mpi (ps ! r) = of_nat (length ps)"
    and "counter (ps ! r) = c" and "max_steps (ps ! r) = m" and "sleep_ms (ps ! r) = sl"
    by simp_all
qed

lemma lockstepI:
  assumes "ps \<noteq> []" and "length ps < 2 ^ 31"
    and "\<And>r. r < length ps \<Longrightarrow> rank (ps ! r) = of_nat r \<and> size_mpi (ps ! r) = of_nat (length ps) \<and>
      counter (ps ! r) = c \<and> max_steps (ps ! r) = m \<and> sleep_ms (ps ! r) = sl"
  shows "lockstep c m sl ps"
  using assms unfolding lockstep_def list_all_iff by (auto simp: in_set_zip)

lemma lockstep_hd:
  assumes "lockstep c m sl ps"
  shows "rank (hd ps) = 0" and "counter (hd ps) = c" and "size_mpi (hd ps) = of_nat (length ps)"
    and "max_steps (hd ps) = m" and "sleep_ms (hd ps) = sl"
proof -
  have ne: "ps \<noteq> []" using assms by (simp add: lockstep_def)
  then have "0 < length ps" by simp
  from lockstep_nth [OF assms this] show "rank (hd ps) = 0" and "counter (hd ps) = c"
    and "size_mpi (hd ps) = of_nat (length ps)" and "max_steps (hd ps) = m" and "sleep_ms (hd ps) = sl"
    using ne by (simp_all add: hd_conv_nth)
qed

text \<open>
  What the gather of a step delivers in a lockstep world: the products of line 40 in
  32-bit arithmetic, by rank.
\<close>

definition products :: "nat \<Rightarrow> cint \<Rightarrow> cint list" where
  "products n step = map (\<lambda>r. of_nat r * (step + 1)) [0..<n]"

lemma gather_lockstep:
  assumes "lockstep c m sl ps"
  shows "gather (map (compute_value c) ps) = products (length ps) c"
  unfolding gather_def products_def
  by (rule nth_equalityI) (simp_all add: compute_value_def lockstep_nth [OF assms])

lemma world_step_nth:
  assumes "lockstep c m sl ps" and "r < length ps"
  shows "world_step ps ! r =
    report_and_advance c (products (length ps) c) (compute_value c (ps ! r))"
  using assms(2) gather_lockstep [OF assms(1)] lockstep_hd(2) [OF assms(1)]
  by (simp add: world_step_def Let_def)

lemma length_world_step: "length (world_step ps) = length ps"
  by (simp add: world_step_def Let_def)

lemma rank_raa: "rank (report_and_advance s g p) = rank p"
  and size_raa: "size_mpi (report_and_advance s g p) = size_mpi p"
  and sleep_raa: "sleep_ms (report_and_advance s g p) = sleep_ms p"
  by (simp_all add: report_and_advance_def pace_def print_summary_def Let_def)

lemma lockstep_world_step:
  assumes "lockstep c m sl ps"
  shows "lockstep (c + 1) m sl (world_step ps)"
proof (rule lockstepI)
  show "world_step ps \<noteq> []" using assms by (simp add: lockstep_def world_step_def Let_def)
  show "length (world_step ps) < 2 ^ 31" using assms by (simp add: lockstep_def length_world_step)
  fix r assume "r < length (world_step ps)"
  then have r: "r < length ps" by (simp add: length_world_step)
  show "rank (world_step ps ! r) = of_nat r \<and> size_mpi (world_step ps ! r) = of_nat (length (world_step ps)) \<and>
      counter (world_step ps ! r) = c + 1 \<and> max_steps (world_step ps ! r) = m \<and> sleep_ms (world_step ps ! r) = sl"
    by (simp add: world_step_nth [OF assms r] length_world_step rank_raa size_raa sleep_raa
        counter_report_and_advance max_steps_report_and_advance compute_value_def
        lockstep_nth [OF assms r])
qed

lemma sint_of_nat_small:
  assumes "n < (2::nat) ^ 31"
  shows "sint (of_nat n :: cint) = int n"
proof -
  have "int n < 2 ^ 31" using assms by simp
  then have "signed_take_bit 31 (int n) = int n"
    by (simp add: signed_take_bit_int_eq_self)
  then show ?thesis by (simp add: signed_of_nat)
qed

text \<open>The events one round adds to the trace of rank 0.\<close>

definition step_events :: "nat \<Rightarrow> cint \<Rightarrow> cint \<Rightarrow> mpi_event list" where
  "step_events n sl c =
     Printf_step c (take (min n 8) (products n c)) (if 8 < n then Some (of_nat n - 8) else None)
     # (if 0 <s sl then [Usleep (sl * 1000)] else [])"

lemma print_summary_root:
  assumes "n < (2::nat) ^ 31" and "size_mpi p = of_nat n"
  shows "trace (print_summary c (p\<lparr>gather_buf := Some g\<rparr>)) =
    trace p @ [Printf_step c (take (min n 8) g) (if 8 < n then Some (of_nat n - 8) else None)]"
proof -
  have s: "sint (size_mpi p) = int n" using assms by (simp add: sint_of_nat_small)
  show ?thesis
  proof (cases "n < 8")
    case True
    then show ?thesis using s assms(2)
      by (simp add: print_summary_def Let_def word_sless_alt min_def)
  next
    case False
    then show ?thesis using s assms(2)
      by (auto simp add: print_summary_def Let_def word_sless_alt min_def)
  qed
qed

lemma root_world_step:
  assumes "lockstep c m sl ps"
  shows "trace (hd (world_step ps)) = trace (hd ps) @ step_events (length ps) sl c"
    and "gather_buf (hd (world_step ps)) = Some (products (length ps) c)"
proof -
  have ne: "ps \<noteq> []" and len: "length ps < 2 ^ 31" using assms by (simp_all add: lockstep_def)
  then have 0: "0 < length ps" by simp
  have hd: "hd (world_step ps) = world_step ps ! 0"
    using ne by (simp add: hd_conv_nth world_step_def Let_def)
  have hd0: "ps ! 0 = hd ps" using ne by (simp add: hd_conv_nth)
  note h = lockstep_hd [OF assms]
  have sz: "size_mpi (compute_value c (hd ps)) = of_nat (length ps)"
    by (simp add: compute_value_def h)
  have tr: "trace (compute_value c (hd ps)) = trace (hd ps)"
    by (simp add: compute_value_def)
  show "trace (hd (world_step ps)) = trace (hd ps) @ step_events (length ps) sl c"
    unfolding hd world_step_nth [OF assms 0] hd0
    using print_summary_root [OF len sz, of c "products (length ps) c"] h
    by (simp add: report_and_advance_def Let_def pace_def compute_value_def step_events_def
        print_summary_def)
  show "gather_buf (hd (world_step ps)) = Some (products (length ps) c)"
    unfolding hd world_step_nth [OF assms 0] hd0
    using h by (simp add: report_and_advance_def Let_def pace_def compute_value_def print_summary_def)
qed

text \<open>The steps from \<open>c\<close> up to, and without, \<open>m\<close>, as \<^verbatim>\<open>int\<close>s.\<close>

definition step_range :: "cint \<Rightarrow> cint \<Rightarrow> cint list" where
  "step_range c m = map word_of_int [sint c..sint m - 1]"

lemma step_range_less:
  fixes c m :: cint
  assumes "c <s m"
  shows "step_range c m = c # step_range (c + 1) m"
proof -
  have lt: "sint c < sint m" using assms by (simp add: word_sless_alt)
  then have "[sint c..sint m - 1] = sint c # [sint c + 1..sint m - 1]"
    by (simp add: upto_rec1)
  then show ?thesis
    by (simp add: step_range_def sint_succ_less [OF assms])
qed

lemma step_range_not_less:
  fixes c m :: cint
  assumes "\<not> c <s m"
  shows "step_range c m = []"
  using assms by (simp add: step_range_def word_sless_alt)

lemma lockstep_all_less:
  assumes "lockstep c m sl ps"
  shows "list_all (\<lambda>p. counter p <s max_steps p) ps \<longleftrightarrow> c <s m"
    and "list_all (\<lambda>p. \<not> counter p <s max_steps p) ps \<longleftrightarrow> \<not> c <s m"
proof -
  have ne: "0 < length ps" using assms by (simp add: lockstep_def)
  show "list_all (\<lambda>p. counter p <s max_steps p) ps \<longleftrightarrow> c <s m"
    using ne lockstep_nth(3,4) [OF assms] by (auto simp: list_all_length)
  show "list_all (\<lambda>p. \<not> counter p <s max_steps p) ps \<longleftrightarrow> \<not> c <s m"
    using ne lockstep_nth(3,4) [OF assms] by (auto simp: list_all_length)
qed

lemma mpi_loop_lockstep:
  assumes "lockstep c m sl ps"
  shows "\<exists>ps'. mpi_loop ps = Some ps' \<and> length ps' = length ps \<and>
           lockstep (if c <s m then m else c) m sl ps' \<and>
           trace (hd ps') = trace (hd ps) @ concat (map (step_events (length ps) sl) (step_range c m))"
  using assms
proof (induction "nat (sint m - sint c)" arbitrary: c ps)
  case 0
  then have nl: "\<not> c <s m" by (simp add: word_sless_alt)
  have ne: "ps \<noteq> []" using 0(2) by (simp add: lockstep_def)
  have "mpi_loop ps = Some ps"
    using ne lockstep_all_less [OF 0(2)] nl by (simp add: mpi_loop.simps)
  then show ?case using nl 0(2) by (simp add: step_range_not_less)
next
  case (Suc k)
  then have lt: "c <s m" by (simp add: word_sless_alt)
  have ne: "ps \<noteq> []" using Suc(3) by (simp add: lockstep_def)
  have s1: "sint (c + 1) = sint c + 1" by (rule sint_succ_less [OF lt])
  have k: "k = nat (sint m - sint (c + 1))" using Suc(2) s1 by simp
  have ls: "lockstep (c + 1) m sl (world_step ps)" by (rule lockstep_world_step [OF Suc(3)])
  from Suc(1) [OF k ls] obtain ps' where
    r: "mpi_loop (world_step ps) = Some ps'" and
    l: "length ps' = length (world_step ps)" and
    f: "lockstep (if c + 1 <s m then m else c + 1) m sl ps'" and
    t: "trace (hd ps') = trace (hd (world_step ps)) @
          concat (map (step_events (length (world_step ps)) sl) (step_range (c + 1) m))"
    by blast
  have unf: "mpi_loop ps = mpi_loop (world_step ps)"
    using ne lockstep_all_less [OF Suc(3)] lt by (simp add: mpi_loop.simps)
  have fin: "(if c + 1 <s m then m else c + 1) = m"
  proof (cases "c + 1 <s m")
    case True then show ?thesis by simp
  next
    case False
    then have "sint m \<le> sint c + 1" using s1 by (simp add: word_sless_alt)
    moreover have "sint c < sint m" using lt by (simp add: word_sless_alt)
    ultimately have "sint (c + 1) = sint m" using s1 by simp
    then have "c + 1 = m" by (rule signed_word_eqI)
    then show ?thesis by simp
  qed
  show ?case
    using r l f t unf fin lt root_world_step(1) [OF Suc(3)]
    by (simp add: length_world_step step_range_less [OF lt])
qed

lemma lockstep_mpi_world:
  assumes "0 < n" and "n < 2 ^ 31"
  shows "lockstep 0 (read_max_steps env) (read_sleep_ms env) (mpi_world n hosts (\<lambda>_. env))"
proof (rule lockstepI)
  show "mpi_world n hosts (\<lambda>_. env) \<noteq> []" using assms(1) by (simp add: mpi_world_def)
  show "length (mpi_world n hosts (\<lambda>_. env)) < 2 ^ 31" using assms(2) by (simp add: mpi_world_def)
  fix r assume "r < length (mpi_world n hosts (\<lambda>_. env))"
  then have r: "r < n" by (simp add: mpi_world_def)
  then show "rank (mpi_world n hosts (\<lambda>_. env) ! r) = of_nat r \<and>
      size_mpi (mpi_world n hosts (\<lambda>_. env) ! r) = of_nat (length (mpi_world n hosts (\<lambda>_. env))) \<and>
      counter (mpi_world n hosts (\<lambda>_. env) ! r) = 0 \<and>
      max_steps (mpi_world n hosts (\<lambda>_. env) ! r) = read_max_steps env \<and>
      sleep_ms (mpi_world n hosts (\<lambda>_. env) ! r) = read_sleep_ms env"
    by (simp add: mpi_world_def main_init_def)
qed

lemma trace_hd_mpi_world:
  assumes "0 < n"
  shows "trace (hd (mpi_world n hosts envs)) = [Printf_start (of_nat n) (hosts 0)]"
proof -
  have "hd (mpi_world n hosts envs) = mpi_world n hosts envs ! 0"
    using assms by (simp add: hd_conv_nth mpi_world_def)
  then show ?thesis using assms by (simp add: mpi_world_def main_init_def)
qed

section \<open>The thread-barrier step engine (demo/omp\_dmtcp\_demo.c)\<close>

text \<open>
  Lines 14-29. \<^verbatim>\<open>busy_work_ms\<close> reads the monotonic clock once, then polls it until the
  elapsed microseconds, computed in unsigned 64-bit arithmetic, reach the target. The
  readings of the clock are the function \<open>clk\<close>: \<open>clk 0\<close> is the first reading
  (\<open>start\<close>), \<open>clk k\<close> the one of the \<open>k\<close>-th round of the loop. The floating-point
  filler of lines 21-23 has no effect and is left out. A loop that never breaks is the
  value \<open>None\<close>.
\<close>

record timespec =
  tv_sec :: u64
  tv_nsec :: u64

definition elapsed_us :: "timespec \<Rightarrow> timespec \<Rightarrow> u64" where
  "elapsed_us start now =
     (tv_sec now - tv_sec start) * 1000000 + (tv_nsec now - tv_nsec start) div 1000"

partial_function (option) busy_poll :: "(nat \<Rightarrow> timespec) \<Rightarrow> timespec \<Rightarrow> u64 \<Rightarrow> nat \<Rightarrow> unit option" where
  "busy_poll clk start target k =
     (if target \<le> elapsed_us start (clk k) then Some ()
      else busy_poll clk start target (Suc k))"

definition busy_work_ms :: "(nat \<Rightarrow> timespec) \<Rightarrow> cint \<Rightarrow> unit option" where
  "busy_work_ms clk ms = busy_poll clk (clk 0) (scast ms * 1000) 1"

text \<open>
  Lines 41-53. \<^verbatim>\<open>getopt\<close> belongs to the C library; \<^verbatim>\<open>main\<close> sees it through the values
  it returns, so a run is given the list of these values, each with the \<^verbatim>\<open>optarg\<close> set
  for it, up to the \<open>-1\<close> that ends the loop. For an option character outside
  \<^verbatim>\<open>"s:w:F:h"\<close>, and for a missing argument, \<^verbatim>\<open>getopt\<close> returns \<^verbatim>\<open>'?'\<close>.
\<close>

record omp_cfg =
  steps :: cint
  work_ms :: cint
  state_file :: "string option"

definition default_cfg :: omp_cfg where
  "default_cfg = \<lparr> steps = 60, work_ms = 25, state_file = None \<rparr>"

fun parse_opts :: "(char \<times> string) list \<Rightarrow> omp_cfg \<Rightarrow> int + omp_cfg" where
  "parse_opts [] cfg = Inr cfg"
| "parse_opts ((opt, optarg) # rest) cfg =
     (if opt = CHR ''s'' then parse_opts rest (cfg\<lparr>steps := atoi optarg\<rparr>)
      else if opt = CHR ''w'' then parse_opts rest (cfg\<lparr>work_ms := atoi optarg\<rparr>)
      else if opt = CHR ''F'' then parse_opts rest (cfg\<lparr>state_file := Some optarg\<rparr>)
      else Inl (if opt = CHR ''h'' then 0 else 1))"

text \<open>
  The state of the loop: the loop index, the static counter, the lines of the state file
  and the trace of what the process prints, opens and sleeps. The world outside is the
  environment record: the team size and the clock readings of each thread in each
  parallel region, whether \<^verbatim>\<open>fopen\<close> succeeds, and the time stamp.
\<close>

datatype fmode = Write_mode | Append_mode

datatype omp_event =
    Usage
  | Banner int cint "string option"
  | Thread_line cint cint cint int
  | Fopen string fmode bool
  | Pace_usleep "32 word"
  | Done_line cint cint

record log_entry =
  log_ts :: string
  log_step :: cint
  log_counter :: cint
  log_threads :: cint

record omp_state =
  step :: cint
  global_counter :: cint
  file_lines :: "log_entry list"
  omp_trace :: "omp_event list"

record omp_env =
  pid :: int
  max_threads :: cint
  omp_num_threads :: "string option"
  team_size :: "cint \<Rightarrow> nat"
  clock :: "cint \<Rightarrow> nat \<Rightarrow> nat \<Rightarrow> timespec"
  fopen_ok :: "cint \<Rightarrow> bool"
  timestamp :: "cint \<Rightarrow> string"

text \<open>Line 85: the mode of \<^verbatim>\<open>fopen\<close>.\<close>

definition open_mode :: "cint \<Rightarrow> fmode" where
  "open_mode s = (if s = 0 then Write_mode else Append_mode)"

text \<open>
  Lines 82-99, the block one thread runs after the barrier. Opening for writing empties
  the file, opening for appending keeps it; a failed \<^verbatim>\<open>fopen\<close> changes nothing.
\<close>

definition single_block :: "omp_env \<Rightarrow> omp_cfg \<Rightarrow> cint \<Rightarrow> omp_state \<Rightarrow> omp_state" where
  "single_block env cfg nthreads st =
     (let st1 =
        (case state_file cfg of
           None \<Rightarrow> st
         | Some path \<Rightarrow>
             (let mode = open_mode (step st) in
              if fopen_ok env (step st)
              then st\<lparr>file_lines := (case mode of Write_mode \<Rightarrow> [] | Append_mode \<Rightarrow> file_lines st)
                          @ [\<lparr> log_ts = timestamp env (step st), log_step = step st,
                               log_counter = global_counter st, log_threads = nthreads \<rparr>],
                      omp_trace := omp_trace st @ [Fopen path mode True]\<rparr>
              else st\<lparr>omp_trace := omp_trace st @ [Fopen path mode False]\<rparr>))
      in st1\<lparr>omp_trace := omp_trace st1 @ [Pace_usleep 2000000]\<rparr>)"

text \<open>
  Lines 68-100. Every thread of the team does its busy work and prints its line (the
  lines are listed by thread number; their order on the terminal is not fixed). The
  barrier is passed when every thread's busy work has returned; otherwise the region
  never ends.
\<close>

definition parallel_region :: "omp_env \<Rightarrow> omp_cfg \<Rightarrow> omp_state \<Rightarrow> omp_state option" where
  "parallel_region env cfg st =
     (let nthreads = team_size env (step st) in
      if list_all (\<lambda>tid. busy_work_ms (clock env (step st) tid) (work_ms cfg) \<noteq> None) [0..<nthreads]
      then Some (single_block env cfg (of_nat nthreads)
             (st\<lparr>omp_trace := omp_trace st @
                   map (\<lambda>tid. Thread_line (step st) (of_nat tid) (of_nat nthreads) (pid env)) [0..<nthreads]\<rparr>))
      else None)"

lemma step_single_block: "step (single_block env cfg nthreads st) = step st"
  by (simp add: single_block_def Let_def split: option.split)

lemma step_parallel_region:
  assumes "parallel_region env cfg st = Some st'"
  shows "step st' = step st"
  using assms by (auto simp: parallel_region_def Let_def step_single_block split: if_splits)

text \<open>Line 67: the loop, with both increments after the region.\<close>

function omp_loop :: "omp_env \<Rightarrow> omp_cfg \<Rightarrow> omp_state \<Rightarrow> omp_state option" where
  "omp_loop env cfg st =
     (if step st <s steps cfg
      then (case parallel_region env cfg st of
              None \<Rightarrow> None
            | Some st' \<Rightarrow>
                omp_loop env cfg (st'\<lparr>step := step st' + 1, global_counter := global_counter st' + 1\<rparr>))
      else Some st)"
  by pat_completeness auto

termination omp_loop
proof (relation "measure (\<lambda>(env, cfg, st). nat (sint (steps cfg) - sint (step st)))")
  show "wf (measure (\<lambda>(env, cfg, st). nat (sint (steps cfg) - sint (step st))))"
    by simp
next
  fix env :: omp_env and cfg :: omp_cfg and st st' :: omp_state
  assume lt: "step st <s steps cfg" and r: "parallel_region env cfg st = Some st'"
  have eq: "step st' = step st" by (rule step_parallel_region [OF r])
  have "sint (step st + 1) = sint (step st) + 1" by (rule sint_succ_less [OF lt])
  moreover have "sint (step st) < sint (steps cfg)" using lt by (simp add: word_sless_alt)
  ultimately show "((env, cfg, st'\<lparr>step := step st' + 1, global_counter := global_counter st' + 1\<rparr>),
      (env, cfg, st)) \<in> measure (\<lambda>(env, cfg, st). nat (sint (steps cfg) - sint (step st)))"
    by (simp add: eq)
qed

declare omp_loop.simps [simp del]

text \<open>
  Lines 40-105: \<^verbatim>\<open>main\<close>, from the values of \<^verbatim>\<open>getopt\<close> and the lines already in the
  state file to the exit code and the final state. The static \<open>global_counter\<close> of a
  process that starts is 0.
\<close>

definition omp_main :: "omp_env \<Rightarrow> (char \<times> string) list \<Rightarrow> log_entry list \<Rightarrow> (int \<times> omp_state) option" where
  "omp_main env opts file0 =
     (case parse_opts opts default_cfg of
        Inl code \<Rightarrow>
          Some (code, \<lparr> step = 0, global_counter = 0, file_lines = file0, omp_trace = [Usage] \<rparr>)
      | Inr cfg \<Rightarrow>
          (case omp_loop env cfg
                  \<lparr> step = 0, global_counter = 0, file_lines = file0,
                    omp_trace = [Banner (pid env) (max_threads env) (omp_num_threads env)] \<rparr> of
             None \<Rightarrow> None
           | Some st \<Rightarrow>
               Some (0, st\<lparr>omp_trace := omp_trace st @ [Done_line (steps cfg) (global_counter st)]\<rparr>)))"

section \<open>Whole runs of the process engine\<close>

text \<open>The step indices of the summary lines in a trace, in the order they were printed.\<close>

fun steps_printed :: "mpi_event list \<Rightarrow> cint list" where
  "steps_printed [] = []"
| "steps_printed (Printf_step s shown elided # es) = s # steps_printed es"
| "steps_printed (e # es) = steps_printed es"

lemma steps_printed_append: "steps_printed (xs @ ys) = steps_printed xs @ steps_printed ys"
  by (induction xs rule: steps_printed.induct) simp_all

lemma steps_printed_step_events: "steps_printed (step_events n sl c) = [c]"
  by (simp add: step_events_def)

lemma steps_printed_rounds: "steps_printed (concat (map (step_events n sl) cs)) = cs"
  by (induction cs) (simp_all add: steps_printed_append steps_printed_step_events)

lemma lockstep_counters:
  assumes "lockstep c m sl ps"
  shows "list_all (\<lambda>p. counter p = c \<and> max_steps p = m) ps"
  using lockstep_nth(3,4) [OF assms] by (simp add: list_all_length)

lemma read_max_steps_pos: "0 <s read_max_steps env"
  by (simp add: read_max_steps_def Let_def word_sless_alt split: option.split)

lemma hd_map_finish:
  assumes "lockstep c m sl ps"
  shows "trace (hd (map finish ps)) = trace (hd ps) @ [Printf_finish c]"
proof -
  have ne: "ps \<noteq> []" using assms by (simp add: lockstep_def)
  then have "hd (map finish ps) = finish (hd ps)" by (simp add: hd_map)
  then show ?thesis using lockstep_hd(1,2) [OF assms] by (simp add: finish_def Let_def)
qed

lemma counter_finish: "counter (finish p) = counter p" and max_steps_finish: "max_steps (finish p) = max_steps p"
  by (simp_all add: finish_def Let_def)

lemma mpi_run_lockstep:
  assumes "lockstep c m sl ps"
  shows "\<exists>ps'. mpi_run ps = Some ps' \<and> length ps' = length ps \<and>
           list_all (\<lambda>p. counter p = (if c <s m then m else c) \<and> max_steps p = m) ps' \<and>
           trace (hd ps') = trace (hd ps) @ concat (map (step_events (length ps) sl) (step_range c m))
              @ [Printf_finish (if c <s m then m else c)]"
proof -
  from mpi_loop_lockstep [OF assms] obtain qs where
    r: "mpi_loop ps = Some qs" and l: "length qs = length ps" and
    f: "lockstep (if c <s m then m else c) m sl qs" and
    t: "trace (hd qs) = trace (hd ps) @ concat (map (step_events (length ps) sl) (step_range c m))"
    by blast
  have "mpi_run ps = Some (map finish qs)" by (simp add: mpi_run_def r)
  moreover have "length (map finish qs) = length ps" by (simp add: l)
  moreover have "list_all (\<lambda>p. counter p = (if c <s m then m else c) \<and> max_steps p = m) (map finish qs)"
    using lockstep_counters [OF f] by (simp add: list_all_iff counter_finish max_steps_finish)
  moreover have "trace (hd (map finish qs)) =
      trace (hd ps) @ concat (map (step_events (length ps) sl) (step_range c m))
        @ [Printf_finish (if c <s m then m else c)]"
    using hd_map_finish [OF f] t by simp
  ultimately show ?thesis by blast
qed

lemma mpi_run_fresh:
  assumes "0 < n" and "n < 2 ^ 31"
  shows "\<exists>ps'. mpi_run (mpi_world n hosts (\<lambda>_. env)) = Some ps' \<and> length ps' = n \<and>
           list_all (\<lambda>p. counter p = read_max_steps env \<and> max_steps p = read_max_steps env) ps' \<and>
           trace (hd ps') = Printf_start (of_nat n) (hosts 0)
              # concat (map (step_events n (read_sleep_ms env)) (step_range 0 (read_max_steps env)))
              @ [Printf_finish (read_max_steps env)]"
proof -
  have len: "length (mpi_world n hosts (\<lambda>_. env)) = n" by (simp add: mpi_world_def)
  show ?thesis
    using mpi_run_lockstep [OF lockstep_mpi_world [OF assms, of env hosts]]
      read_max_steps_pos [of env] trace_hd_mpi_world [OF assms(1), of hosts "\<lambda>_. env"]
    by (simp add: len)
qed

text \<open>Concrete worlds and environments for the examples below.\<close>

definition hosts_node :: "nat \<Rightarrow> string" where
  "hosts_node r = ''node''"

definition env_three :: "string \<rightharpoonup> string" where
  "env_three = [''MAX_STEPS'' \<mapsto> ''3'']"

definition envs_three :: "nat \<Rightarrow> (string \<rightharpoonup> string)" where
  "envs_three r = env_three"

lemma envs_three_const: "envs_three = (\<lambda>_. env_three)"
  by (rule ext) (simp add: envs_three_def)

lemma read_env_three: "read_max_steps env_three = 3" "read_sleep_ms env_three = 1000"
  by (simp_all add: read_max_steps_def read_sleep_ms_def env_three_def atoi_def strtol_sat_def is_space_def
      is_digit_def word_sless_alt)

lemma lockstep_world_three: "lockstep 0 3 1000 (mpi_world 4 hosts_node envs_three)"
  using lockstep_mpi_world [of 4 env_three hosts_node]
  by (simp add: read_env_three envs_three_const)

lemma sint_product:
  fixes s :: cint
  assumes r: "r < n" and n: "n < (2::nat) ^ 31" and s: "0 \<le> sint s"
    and b: "int (n - 1) * (sint s + 1) < 2 ^ 31"
  shows "sint (of_nat r * (s + 1) :: cint) = int r * (sint s + 1)"
proof (cases "r = 0")
  case True
  then show ?thesis by simp
next
  case False
  then have r1: "1 \<le> int r" by simp
  have rn: "int r \<le> int (n - 1)" using r by simp
  have pos: "0 < sint s + 1" using s by simp
  have "int r * (sint s + 1) \<le> int (n - 1) * (sint s + 1)"
    using rn pos by (simp add: mult_right_mono)
  then have ub: "int r * (sint s + 1) < 2 ^ 31" using b by simp
  have "1 * (sint s + 1) \<le> int r * (sint s + 1)"
    using r1 pos by (intro mult_right_mono) simp_all
  then have s1: "sint s + 1 < 2 ^ 31" using ub by simp
  have "- (2 ^ 31) \<le> sint s + 1" using s by simp
  then have "signed_take_bit 31 (sint s + 1) = sint s + 1"
    using s1 by (simp add: signed_take_bit_int_eq_self)
  then have ss: "sint (s + 1) = sint s + 1" by (simp add: sint_word_ariths)
  have sr: "sint (of_nat r :: cint) = int r"
    using r n by (simp add: sint_of_nat_small)
  have "0 \<le> int r * (sint s + 1)" using pos by simp
  then have "- (2 ^ 31) \<le> int r * (sint s + 1)" by simp
  then have "signed_take_bit 31 (int r * (sint s + 1)) = int r * (sint s + 1)"
    using ub by (simp add: signed_take_bit_int_eq_self)
  then show ?thesis by (simp add: sint_word_mult ss sr)
qed

lemma sint_products:
  assumes n: "n < (2::nat) ^ 31" and s: "0 \<le> sint s"
    and b: "int (n - 1) * (sint s + 1) < 2 ^ 31"
  shows "map sint (products n s) = map (\<lambda>r. int r * (sint s + 1)) [0..<n]"
  unfolding products_def
  by (rule nth_equalityI) (simp_all add: sint_product [OF _ n s b])

lemma step_range_three: "step_range 0 3 = [0, 1, 2]"
  by (simp add: step_range_def upto_rec1)

lemma products_four: "products 4 0 = [0, 1, 2, 3]" "products 4 1 = [0, 2, 4, 6]"
  "products 4 2 = [0, 3, 6, 9]"
  by (simp_all add: products_def upt_rec)

definition env_long_run :: "string \<rightharpoonup> string" where
  "env_long_run = [''MAX_STEPS'' \<mapsto> ''2147483647'', ''SLEEP_MS'' \<mapsto> ''0'']"

definition envs_long_run :: "nat \<Rightarrow> (string \<rightharpoonup> string)" where
  "envs_long_run r = env_long_run"

lemma read_env_long_run: "read_max_steps env_long_run = 2147483647" "read_sleep_ms env_long_run = 0"
  by (simp_all add: read_max_steps_def read_sleep_ms_def env_long_run_def atoi_def strtol_sat_def is_space_def
      is_digit_def word_sless_alt)

lemma step_range_mem:
  fixes c m s :: cint
  assumes "sint c \<le> sint s" and "sint s < sint m"
  shows "s \<in> set (step_range c m)"
proof -
  have "sint s \<in> set [sint c..sint m - 1]" using assms by simp
  then have "word_of_int (sint s) \<in> set (step_range c m)"
    unfolding step_range_def by (simp only: set_map image_eqI)
  then show ?thesis by simp
qed

definition envs_default :: "nat \<Rightarrow> (string \<rightharpoonup> string)" where
  "envs_default r = Map.empty"

lemma world_step_nth_any:
  assumes "r < length ps"
  shows "world_step ps ! r =
    report_and_advance (counter (hd ps)) (gather (map (compute_value (counter (hd ps))) ps))
      (compute_value (counter (hd ps)) (ps ! r))"
  using assms by (simp add: world_step_def Let_def)

section \<open>The monotonic clock\<close>

text \<open>
  What is assumed of \<^verbatim>\<open>CLOCK_MONOTONIC\<close>: a reading is a well-formed \<^verbatim>\<open>timespec\<close> with less
  than \<open>2 ^ 32\<close> seconds since its origin (about 136 years) and less than \<open>10 ^ 9\<close>
  nanoseconds, and no reading is earlier than the one before.
\<close>

definition timespec_ok :: "timespec \<Rightarrow> bool" where
  "timespec_ok t \<longleftrightarrow> uint (tv_sec t) < 2 ^ 32 \<and> uint (tv_nsec t) < 1000000000"

definition nsec_of :: "timespec \<Rightarrow> int" where
  "nsec_of t = uint (tv_sec t) * 1000000000 + uint (tv_nsec t)"

definition monotonic_clock :: "(nat \<Rightarrow> timespec) \<Rightarrow> bool" where
  "monotonic_clock clk \<longleftrightarrow> (\<forall>k. timespec_ok (clk k) \<and> nsec_of (clk k) \<le> nsec_of (clk (Suc k)))"

lemma monotonic_clock_start:
  assumes "monotonic_clock clk"
  shows "nsec_of (clk 0) \<le> nsec_of (clk k)"
proof (induction k)
  case 0
  show ?case by simp
next
  case (Suc k)
  have "nsec_of (clk k) \<le> nsec_of (clk (Suc k))"
    using assms by (simp add: monotonic_clock_def)
  with Suc show ?case by simp
qed

lemma int_mod_wrap:
  fixes x :: int
  assumes "- (2 ^ 64) \<le> x" and "x < 0"
  shows "x mod 2 ^ 64 = 2 ^ 64 + x"
proof -
  have "(x + 2 ^ 64) mod 2 ^ 64 = x + 2 ^ 64"
    using assms by (intro mod_pos_pos_trivial) simp_all
  moreover have "(x + 2 ^ 64) mod 2 ^ 64 = x mod 2 ^ 64"
    by simp
  ultimately show ?thesis by simp
qed

lemma uint_elapsed_us:
  assumes s: "timespec_ok start" and n: "timespec_ok now" and le: "nsec_of start \<le> nsec_of now"
  shows "uint (elapsed_us start now) =
    (uint (tv_sec now) - uint (tv_sec start)) * 1000000 +
    (if uint (tv_nsec start) \<le> uint (tv_nsec now)
     then (uint (tv_nsec now) - uint (tv_nsec start)) div 1000
     else (2 ^ 64 + uint (tv_nsec now) - uint (tv_nsec start)) div 1000)"
    and "uint (elapsed_us start now) < 2 ^ 56"
    and "uint (tv_sec start) \<le> uint (tv_sec now)"
proof -
  define a b c d where "a = uint (tv_sec start)" and "b = uint (tv_nsec start)"
    and "c = uint (tv_sec now)" and "d = uint (tv_nsec now)"
  have a: "0 \<le> a" "a < 2 ^ 32" and b: "0 \<le> b" "b < 1000000000"
    using s by (simp_all add: timespec_ok_def a_def b_def)
  have c: "0 \<le> c" "c < 2 ^ 32" and d: "0 \<le> d" "d < 1000000000"
    using n by (simp_all add: timespec_ok_def c_def d_def)
  have "a * 1000000000 + b \<le> c * 1000000000 + d"
    using le by (simp add: nsec_of_def a_def b_def c_def d_def)
  then have ac: "a \<le> c" using b d by linarith
  then show "uint (tv_sec start) \<le> uint (tv_sec now)" by (simp add: a_def c_def)
  have ds: "uint (tv_sec now - tv_sec start) = c - a"
  proof -
    have "uint (tv_sec now - tv_sec start) = (c - a) mod 2 ^ 64"
      by (simp add: uint_word_ariths a_def c_def)
    also have "\<dots> = c - a" using ac c a by (intro mod_pos_pos_trivial) simp_all
    finally show ?thesis .
  qed
  have m: "uint ((tv_sec now - tv_sec start) * 1000000) = (c - a) * 1000000"
  proof -
    have u: "uint (1000000 :: u64) = 1000000" by simp
    have "uint ((tv_sec now - tv_sec start) * 1000000) =
        uint (tv_sec now - tv_sec start) * uint (1000000 :: u64) mod 2 ^ LENGTH(64)"
      by (rule uint_word_ariths(3))
    then have "uint ((tv_sec now - tv_sec start) * 1000000) = (c - a) * 1000000 mod 2 ^ 64"
      by (simp only: ds u len_bit0 len_num1 mult_1_right mult_2 one_add_one numeral_Bit0) simp
    also have "\<dots> = (c - a) * 1000000" using ac c a by (intro mod_pos_pos_trivial) simp_all
    finally show ?thesis .
  qed
  have dn: "uint (tv_nsec now - tv_nsec start) = (if b \<le> d then d - b else 2 ^ 64 + d - b)"
  proof -
    have e: "uint (tv_nsec now - tv_nsec start) = (d - b) mod 2 ^ 64"
      by (simp add: uint_word_ariths b_def d_def)
    show ?thesis
    proof (cases "b \<le> d")
      case True
      then have "(d - b) mod 2 ^ 64 = d - b" using d b by (intro mod_pos_pos_trivial) simp_all
      with e True show ?thesis by simp
    next
      case False
      then have "(d - b) mod 2 ^ 64 = 2 ^ 64 + (d - b)" using b d by (intro int_mod_wrap) simp_all
      with e False show ?thesis by simp
    qed
  qed
  have q: "uint ((tv_nsec now - tv_nsec start) div 1000) =
      (if b \<le> d then (d - b) div 1000 else (2 ^ 64 + d - b) div 1000)"
    by (simp add: uint_div dn)
  define q where "q = (if b \<le> d then (d - b) div 1000 else (2 ^ 64 + d - b) div 1000)"
  have qb: "0 \<le> q" "q < 2 ^ 55"
    using b d by (auto simp: q_def pos_imp_zdiv_nonneg_iff)
  have cab: "0 \<le> (c - a) * 1000000" "(c - a) * 1000000 < 2 ^ 55"
    using ac a c by simp_all
  have "uint (elapsed_us start now) = ((c - a) * 1000000 + q) mod 2 ^ 64"
    unfolding elapsed_us_def q_def by (simp only: uint_word_ariths(1) m q) simp
  also have "\<dots> = (c - a) * 1000000 + q"
    using qb cab by (intro mod_pos_pos_trivial) simp_all
  finally have r: "uint (elapsed_us start now) = (c - a) * 1000000 + q" .
  then show "uint (elapsed_us start now) =
    (uint (tv_sec now) - uint (tv_sec start)) * 1000000 +
    (if uint (tv_nsec start) \<le> uint (tv_nsec now)
     then (uint (tv_nsec now) - uint (tv_nsec start)) div 1000
     else (2 ^ 64 + uint (tv_nsec now) - uint (tv_nsec start)) div 1000)"
    by (simp add: q_def a_def b_def c_def d_def)
  show "uint (elapsed_us start now) < 2 ^ 56"
    using r qb cab by simp
qed

lemma busy_poll_reaches:
  assumes "target \<le> elapsed_us start (clk (j + i))"
  shows "busy_poll clk start target j = Some ()"
  using assms
proof (induction i arbitrary: j)
  case 0
  then show ?case by (subst busy_poll.simps) simp
next
  case (Suc i)
  then have "busy_poll clk start target (Suc j) = Some ()" by simp
  then show ?case by (subst busy_poll.simps) simp
qed

lemma busy_poll_Some_reached:
  assumes "busy_poll clk start target j = Some y"
  shows "\<exists>k\<ge>j. target \<le> elapsed_us start (clk k)"
proof (rule busy_poll.raw_induct
    [where P = "\<lambda>clk start target j y. \<exists>k\<ge>j. target \<le> elapsed_us start (clk k)"])
  fix f :: "(nat \<Rightarrow> timespec) \<Rightarrow> timespec \<Rightarrow> u64 \<Rightarrow> nat \<Rightarrow> unit option"
    and c s t i z
  assume ih: "\<And>c s t i z. f c s t i = Some z \<Longrightarrow> \<exists>k\<ge>i. t \<le> elapsed_us s (c k)"
    and eq: "(if t \<le> elapsed_us s (c i) then Some () else f c s t (Suc i)) = Some z"
  show "\<exists>k\<ge>i. t \<le> elapsed_us s (c k)"
  proof (cases "t \<le> elapsed_us s (c i)")
    case True
    then show ?thesis by blast
  next
    case False
    with eq have "f c s t (Suc i) = Some z" by simp
    from ih [OF this] obtain k where "Suc i \<le> k" and "t \<le> elapsed_us s (c k)"
      by blast
    then show ?thesis by (intro exI [of _ k]) simp
  qed
next
  show "busy_poll clk start target j = Some y" by (rule assms)
qed

lemma busy_poll_never:
  assumes "\<And>k. \<not> target \<le> elapsed_us start (clk k)"
  shows "busy_poll clk start target j = None"
proof (cases "busy_poll clk start target j")
  case None
  then show ?thesis .
next
  case (Some y)
  from busy_poll_Some_reached [OF this] assms show ?thesis by blast
qed

lemma sint_cint_bounds:
  fixes ms :: cint
  shows "- (2 ^ 31) \<le> sint ms" and "sint ms < 2 ^ 31"
  using sint_ge [of ms] sint_lt [of ms] by simp_all

lemma uint_target:
  fixes ms :: cint
  shows "uint (scast ms * 1000 :: u64) = (sint ms * 1000) mod 2 ^ 64"
proof -
  have "(word_of_int (sint ms * 1000) :: u64) = word_of_int (sint ms) * 1000"
    by (simp only: of_int_mult of_int_numeral)
  then have "(scast ms * 1000 :: u64) = word_of_int (sint ms * 1000)"
    by (simp only: scast_eq)
  then show ?thesis by (simp only: uint_word_of_int) simp
qed

lemma uint_target_nonneg:
  fixes ms :: cint
  assumes "0 \<le> sint ms"
  shows "uint (scast ms * 1000 :: u64) = sint ms * 1000"
proof -
  have "(sint ms * 1000) mod 2 ^ 64 = sint ms * 1000"
    using assms sint_cint_bounds(2) [of ms] by (intro mod_pos_pos_trivial) simp_all
  then show ?thesis by (simp only: uint_target)
qed

lemma uint_target_neg:
  fixes ms :: cint
  assumes "sint ms < 0"
  shows "uint (scast ms * 1000 :: u64) = 2 ^ 64 + sint ms * 1000"
proof -
  have "(sint ms * 1000) mod 2 ^ 64 = 2 ^ 64 + sint ms * 1000"
    using assms sint_cint_bounds(1) [of ms] by (intro int_mod_wrap) simp_all
  then show ?thesis by (simp only: uint_target)
qed

lemma target_reached:
  fixes ms :: cint
  assumes s: "timespec_ok start" and n: "timespec_ok now"
    and ms: "0 \<le> sint ms"
    and p: "nsec_of start + sint ms * 1000000 \<le> nsec_of now"
  shows "scast ms * 1000 \<le> elapsed_us start now"
proof -
  define a b c d where "a = uint (tv_sec start)" and "b = uint (tv_nsec start)"
    and "c = uint (tv_sec now)" and "d = uint (tv_nsec now)"
  define x where "x = sint ms"
  have b: "0 \<le> b" "b < 1000000000" using s by (simp_all add: timespec_ok_def b_def)
  have d: "0 \<le> d" "d < 1000000000" using n by (simp_all add: timespec_ok_def d_def)
  have x: "0 \<le> x" "x < 2147483648" using ms sint_cint_bounds(2) [of ms] by (simp_all add: x_def)
  have p': "a * 1000000000 + b + x * 1000000 \<le> c * 1000000000 + d"
    using p by (simp add: nsec_of_def a_def b_def c_def d_def x_def)
  have le: "nsec_of start \<le> nsec_of now" using p ms by simp
  have ac: "a \<le> c" using uint_elapsed_us(3) [OF s n le] by (simp add: a_def c_def)
  have e: "uint (elapsed_us start now) =
      (c - a) * 1000000 + (if b \<le> d then (d - b) div 1000 else (2 ^ 64 + d - b) div 1000)"
    using uint_elapsed_us(1) [OF s n le] by (simp add: a_def b_def c_def d_def)
  have "x * 1000 \<le> uint (elapsed_us start now)"
  proof (cases "b \<le> d")
    case True
    define z where "z = x * 1000 - (c - a) * 1000000"
    have "z * 1000 \<le> d - b" using p' by (simp add: z_def)
    then have "(z * 1000) div 1000 \<le> (d - b) div 1000" by (intro zdiv_mono1) simp_all
    then have "z \<le> (d - b) div 1000" by simp
    then have "x * 1000 \<le> (c - a) * 1000000 + (d - b) div 1000" by (simp add: z_def)
    with e True show ?thesis by simp
  next
    case False
    have "18446744072709551616 \<le> 18446744073709551616 + d - b" using b d by simp
    then have "(18446744072709551616 :: int) div 1000 \<le> (18446744073709551616 + d - b) div 1000"
      by (intro zdiv_mono1) simp_all
    then have "2147483648000 \<le> (18446744073709551616 + d - b) div 1000" by simp
    moreover have "0 \<le> (c - a) * 1000000" using ac by simp
    ultimately have "x * 1000 \<le> (c - a) * 1000000 + (18446744073709551616 + d - b) div 1000"
      using x by linarith
    with e False show ?thesis by simp
  qed
  then show ?thesis
    by (simp only: word_le_def uint_target_nonneg [OF ms] x_def)
qed

lemma target_not_reached:
  fixes ms :: cint
  assumes s: "timespec_ok start" and n: "timespec_ok now"
    and le: "nsec_of start \<le> nsec_of now"
    and ms: "sint ms < 0"
  shows "\<not> scast ms * 1000 \<le> elapsed_us start now"
proof -
  have "uint (elapsed_us start now) < 2 ^ 56" by (rule uint_elapsed_us(2) [OF s n le])
  moreover have "- 2147483648 \<le> sint ms" using sint_cint_bounds(1) [of ms] by simp
  ultimately have "uint (elapsed_us start now) < 2 ^ 64 + sint ms * 1000" by simp
  then show ?thesis
    by (simp only: word_le_def uint_target_neg [OF ms])
qed

definition clock_seconds :: "nat \<Rightarrow> timespec" where
  "clock_seconds k = \<lparr> tv_sec = (if k = 0 then 0 else 1), tv_nsec = 0 \<rparr>"

lemma monotonic_clock_seconds: "monotonic_clock clock_seconds"
  by (simp add: monotonic_clock_def timespec_ok_def nsec_of_def clock_seconds_def)

section \<open>Invariants of the thread engine's loop\<close>

lemma omp_loop_done:
  assumes "\<not> step st <s steps cfg"
  shows "omp_loop env cfg st = Some st"
  using assms by (simp add: omp_loop.simps)

lemma omp_loop_step:
  assumes "step st <s steps cfg" and "parallel_region env cfg st = Some st'"
  shows "omp_loop env cfg st =
    omp_loop env cfg (st'\<lparr>step := step st' + 1, global_counter := global_counter st' + 1\<rparr>)"
  using assms by (subst omp_loop.simps) simp

lemma omp_loop_hang:
  assumes "step st <s steps cfg" and "parallel_region env cfg st = None"
  shows "omp_loop env cfg st = None"
  using assms by (subst omp_loop.simps) simp

lemma global_counter_single_block:
  "global_counter (single_block env cfg nthreads st) = global_counter st"
  by (simp add: single_block_def Let_def split: option.split)

lemma global_counter_parallel_region:
  assumes "parallel_region env cfg st = Some st'"
  shows "global_counter st' = global_counter st"
  using assms
  by (auto simp: parallel_region_def Let_def global_counter_single_block split: if_splits)

lemma file_lines_single_block:
  "file_lines (single_block env cfg nthreads st) =
     (case state_file cfg of
        None \<Rightarrow> file_lines st
      | Some path \<Rightarrow>
          if fopen_ok env (step st)
          then (if step st = 0 then [] else file_lines st)
               @ [\<lparr> log_ts = timestamp env (step st), log_step = step st,
                    log_counter = global_counter st, log_threads = nthreads \<rparr>]
          else file_lines st)"
  by (simp add: single_block_def Let_def open_mode_def split: option.split)

lemma parallel_region_Some:
  assumes "parallel_region env cfg st = Some st'"
  shows "st' = single_block env cfg (of_nat (team_size env (step st)))
     (st\<lparr>omp_trace := omp_trace st @
          map (\<lambda>tid. Thread_line (step st) (of_nat tid) (of_nat (team_size env (step st))) (pid env))
            [0..<team_size env (step st)]\<rparr>)"
  using assms by (simp add: parallel_region_def Let_def split: if_splits)

lemma file_lines_parallel_region:
  assumes "parallel_region env cfg st = Some st'"
  shows "file_lines st' =
     (case state_file cfg of
        None \<Rightarrow> file_lines st
      | Some path \<Rightarrow>
          if fopen_ok env (step st)
          then (if step st = 0 then [] else file_lines st)
               @ [\<lparr> log_ts = timestamp env (step st), log_step = step st,
                    log_counter = global_counter st, log_threads = of_nat (team_size env (step st)) \<rparr>]
          else file_lines st)"
  by (simp add: parallel_region_Some [OF assms] file_lines_single_block split: option.split)

lemma omp_loop_invariant:
  assumes "omp_loop env cfg st = Some st'" and "I st"
    and "\<And>s s'. I s \<Longrightarrow> step s <s steps cfg \<Longrightarrow> parallel_region env cfg s = Some s' \<Longrightarrow>
           I (s'\<lparr>step := step s' + 1, global_counter := global_counter s' + 1\<rparr>)"
  shows "I st' \<and> \<not> step st' <s steps cfg"
  using assms
proof (induction env cfg st rule: omp_loop.induct)
  case (1 env cfg st)
  show ?case
  proof (cases "step st <s steps cfg")
    case False
    then have "st' = st" using "1.prems"(1) by (simp add: omp_loop_done)
    with False "1.prems"(2) show ?thesis by simp
  next
    case True
    show ?thesis
    proof (cases "parallel_region env cfg st")
      case None
      with True "1.prems"(1) show ?thesis by (simp add: omp_loop_hang)
    next
      case (Some x)
      have r: "omp_loop env cfg (x\<lparr>step := step x + 1, global_counter := global_counter x + 1\<rparr>) = Some st'"
        using "1.prems"(1) omp_loop_step [OF True Some] by simp
      have i: "I (x\<lparr>step := step x + 1, global_counter := global_counter x + 1\<rparr>)"
        by (rule "1.prems"(3) [OF "1.prems"(2) True Some])
      show ?thesis
        by (rule "1.IH" [OF True Some r i]) (rule "1.prems"(3))
    qed
  qed
qed

lemma omp_loop_difference:
  assumes "omp_loop env cfg st = Some st'"
  shows "global_counter st' - step st' = global_counter st - step st"
proof -
  have "global_counter st' - step st' = global_counter st - step st \<and> \<not> step st' <s steps cfg"
    by (rule omp_loop_invariant [OF assms,
          where I = "\<lambda>s. global_counter s - step s = global_counter st - step st"])
      (simp_all add: step_parallel_region global_counter_parallel_region)
  then show ?thesis by simp
qed

lemma omp_loop_reaches_steps:
  assumes "omp_loop env cfg st = Some st'" and "sint (step st) \<le> sint (steps cfg)"
  shows "step st' = steps cfg"
proof -
  have "sint (step st') \<le> sint (steps cfg) \<and> \<not> step st' <s steps cfg"
  proof (rule omp_loop_invariant [OF assms(1), where I = "\<lambda>s. sint (step s) \<le> sint (steps cfg)"])
    show "sint (step st) \<le> sint (steps cfg)" by (rule assms(2))
  next
    fix s s' assume lt: "step s <s steps cfg" and r: "parallel_region env cfg s = Some s'"
    have "sint (step s + 1) = sint (step s) + 1" by (rule sint_succ_less [OF lt])
    moreover have "sint (step s) < sint (steps cfg)" using lt by (simp add: word_sless_alt)
    ultimately show "sint (step (s'\<lparr>step := step s' + 1, global_counter := global_counter s' + 1\<rparr>))
        \<le> sint (steps cfg)"
      by (simp add: step_parallel_region [OF r])
  qed
  then have "sint (step st') = sint (steps cfg)" by (simp add: word_sless_alt)
  then show ?thesis by (rule signed_word_eqI)
qed

lemma omp_loop_step_is_counter:
  assumes "omp_loop env cfg st = Some st'" and "step st = global_counter st"
  shows "step st' = global_counter st' \<and>
    (\<forall>e\<in>set (file_lines st'). e \<in> set (file_lines st) \<or> log_step e = log_counter e)"
proof -
  let ?I = "\<lambda>s. step s = global_counter s \<and>
    (\<forall>e\<in>set (file_lines s). e \<in> set (file_lines st) \<or> log_step e = log_counter e)"
  have "?I st' \<and> \<not> step st' <s steps cfg"
  proof (rule omp_loop_invariant [OF assms(1), where I = ?I])
    show "?I st" using assms(2) by simp
  next
    fix s s' assume i: "?I s" and r: "parallel_region env cfg s = Some s'"
    show "?I (s'\<lparr>step := step s' + 1, global_counter := global_counter s' + 1\<rparr>)"
      using i
      by (auto simp: step_parallel_region [OF r] global_counter_parallel_region [OF r]
          file_lines_parallel_region [OF r] split: option.splits if_splits)
  qed
  then show ?thesis by simp
qed

lemma omp_loop_retains:
  assumes "omp_loop env cfg st = Some st'" and "0 <s step st"
  shows "\<exists>new. file_lines st' = file_lines st @ new"
proof -
  let ?I = "\<lambda>s. 0 < sint (step s) \<and> (\<exists>new. file_lines s = file_lines st @ new)"
  have "?I st' \<and> \<not> step st' <s steps cfg"
  proof (rule omp_loop_invariant [OF assms(1), where I = ?I])
    show "?I st" using assms(2) by (simp add: word_sless_alt)
  next
    fix s s' assume i: "?I s" and lt: "step s <s steps cfg" and r: "parallel_region env cfg s = Some s'"
    have s1: "sint (step s + 1) = sint (step s) + 1" by (rule sint_succ_less [OF lt])
    have nz: "step s \<noteq> 0" using i by auto
    show "?I (s'\<lparr>step := step s' + 1, global_counter := global_counter s' + 1\<rparr>)"
      using i s1 nz
      by (auto simp: step_parallel_region [OF r] file_lines_parallel_region [OF r]
          split: option.splits)
  qed
  then show ?thesis by simp
qed

lemma omp_main_Inr:
  assumes "parse_opts opts default_cfg = Inr cfg"
  shows "omp_main env opts file0 =
     (case omp_loop env cfg
             \<lparr> step = 0, global_counter = 0, file_lines = file0,
               omp_trace = [Banner (pid env) (max_threads env) (omp_num_threads env)] \<rparr> of
        None \<Rightarrow> None
      | Some st \<Rightarrow>
          Some (0, st\<lparr>omp_trace := omp_trace st @ [Done_line (steps cfg) (global_counter st)]\<rparr>))"
  using assms by (simp add: omp_main_def)

lemma omp_main_Inl:
  assumes "parse_opts opts default_cfg = Inl code"
  shows "omp_main env opts file0 =
     Some (code, \<lparr> step = 0, global_counter = 0, file_lines = file0, omp_trace = [Usage] \<rparr>)"
  using assms by (simp add: omp_main_def)

lemma omp_main_cases:
  assumes "omp_main env opts file0 = Some (code, st)"
  shows "(\<exists>c. parse_opts opts default_cfg = Inl c \<and> code = c \<and>
            st = \<lparr> step = 0, global_counter = 0, file_lines = file0, omp_trace = [Usage] \<rparr>) \<or>
         (\<exists>cfg st1. parse_opts opts default_cfg = Inr cfg \<and> code = 0 \<and>
            omp_loop env cfg \<lparr> step = 0, global_counter = 0, file_lines = file0,
               omp_trace = [Banner (pid env) (max_threads env) (omp_num_threads env)] \<rparr> = Some st1 \<and>
            st = st1\<lparr>omp_trace := omp_trace st1 @ [Done_line (steps cfg) (global_counter st1)]\<rparr>)"
  using assms by (auto simp: omp_main_def split: sum.splits option.splits)

lemma omp_main_counter:
  assumes p: "parse_opts opts default_cfg = Inr cfg" and s: "0 \<le> sint (steps cfg)"
    and m: "omp_main env opts file0 = Some (code, fin)"
  shows "global_counter fin = steps cfg"
    and "last (omp_trace fin) = Done_line (steps cfg) (steps cfg)"
proof -
  let ?init = "\<lparr> step = 0, global_counter = 0, file_lines = file0,
               omp_trace = [Banner (pid env) (max_threads env) (omp_num_threads env)] \<rparr>"
  from m obtain st1 where l: "omp_loop env cfg ?init = Some st1"
    and f: "fin = st1\<lparr>omp_trace := omp_trace st1 @ [Done_line (steps cfg) (global_counter st1)]\<rparr>"
    by (auto simp: omp_main_Inr [OF p] split: option.splits)
  have "step st1 = steps cfg"
    using s by (intro omp_loop_reaches_steps [OF l]) simp
  moreover have "global_counter st1 - step st1 = 0"
    using omp_loop_difference [OF l] by simp
  ultimately have g: "global_counter st1 = steps cfg" by simp
  show "global_counter fin = steps cfg" by (simp add: f g)
  show "last (omp_trace fin) = Done_line (steps cfg) (steps cfg)" by (simp add: f g)
qed

lemma omp_trace_single_block:
  assumes "state_file cfg = Some path"
  shows "omp_trace (single_block env cfg nthreads st) =
    omp_trace st @ [Fopen path (open_mode (step st)) (fopen_ok env (step st)), Pace_usleep 2000000]"
  using assms by (simp add: single_block_def Let_def)

text \<open>
  The option characters that have a case of their own in the \<^verbatim>\<open>switch\<close> and let the loop
  of \<^verbatim>\<open>getopt\<close> go on; every other value, \<^verbatim>\<open>'h'\<close> included, prints the usage and returns.
\<close>

definition takes_value :: "char \<Rightarrow> bool" where
  "takes_value c \<longleftrightarrow> c = CHR ''s'' \<or> c = CHR ''w'' \<or> c = CHR ''F''"

lemma parse_opts_rejects:
  assumes "list_all (\<lambda>(c, a). takes_value c) pre" and "\<not> takes_value opt"
  shows "parse_opts (pre @ (opt, a) # rest) cfg = Inl (if opt = CHR ''h'' then 0 else 1)"
  using assms
proof (induction pre arbitrary: cfg)
  case Nil
  then show ?case by (simp add: takes_value_def)
next
  case (Cons x pre)
  obtain c v where x: "x = (c, v)" by (cases x)
  with Cons.prems have "takes_value c" and "list_all (\<lambda>(c, a). takes_value c) pre" by simp_all
  then show ?case using Cons.IH Cons.prems(2) by (auto simp: x takes_value_def)
qed

lemma parse_opts_exit_one:
  assumes "parse_opts opts cfg = Inl 1"
  shows "\<exists>(c, a)\<in>set opts. \<not> takes_value c \<and> c \<noteq> CHR ''h''"
  using assms
proof (induction opts arbitrary: cfg)
  case Nil
  then show ?case by simp
next
  case (Cons x opts)
  obtain c v where x: "x = (c, v)" by (cases x)
  show ?case
  proof (cases "takes_value c")
    case True
    then obtain cfg' where "parse_opts (x # opts) cfg = parse_opts opts cfg'"
      by (auto simp: x takes_value_def)
    with Cons.prems have "parse_opts opts cfg' = Inl 1" by simp
    from Cons.IH [OF this] show ?thesis by auto
  next
    case False
    with Cons.prems have "c \<noteq> CHR ''h''"
      by (auto simp: x takes_value_def split: if_splits)
    with False show ?thesis by (simp add: x)
  qed
qed

text \<open>
  A concrete run of the thread engine for the examples below: two threads, a clock that
  shows one second at every reading after the first, a state file that can be opened.
\<close>

definition env_two :: omp_env where
  "env_two = \<lparr> pid = 4242, max_threads = 2, omp_num_threads = Some ''2'',
     team_size = (\<lambda>_. 2), clock = (\<lambda>_ _. clock_seconds), fopen_ok = (\<lambda>_. True),
     timestamp = (\<lambda>_. ''2024-01-01 00:00:00'') \<rparr>"

definition opts_two :: "(char \<times> string) list" where
  "opts_two = [(CHR ''s'', ''2''), (CHR ''F'', ''state.txt'')]"

definition cfg_two :: omp_cfg where
  "cfg_two = \<lparr> steps = 2, work_ms = 25, state_file = Some ''state.txt'' \<rparr>"

lemma parse_opts_two: "parse_opts opts_two default_cfg = Inr cfg_two"
  by (simp add: opts_two_def default_cfg_def cfg_two_def atoi_def strtol_sat_def is_space_def is_digit_def)

lemma busy_clock_seconds: "busy_work_ms clock_seconds 25 = Some ()"
proof -
  have "(scast (25 :: cint) * 1000 :: u64) \<le> elapsed_us (clock_seconds 0) (clock_seconds (1 + 0))"
    by (simp add: elapsed_us_def clock_seconds_def)
  then show ?thesis unfolding busy_work_ms_def by (rule busy_poll_reaches)
qed

lemma parallel_region_two:
  "parallel_region env_two cfg_two st =
     Some (single_block env_two cfg_two 2
       (st\<lparr>omp_trace := omp_trace st @
          [Thread_line (step st) 0 2 4242, Thread_line (step st) 1 2 4242]\<rparr>))"
  by (simp add: parallel_region_def Let_def env_two_def cfg_two_def busy_clock_seconds upt_rec)

definition entry_two :: "cint \<Rightarrow> log_entry" where
  "entry_two s = \<lparr> log_ts = ''2024-01-01 00:00:00'', log_step = s, log_counter = s, log_threads = 2 \<rparr>"

definition state_two :: "cint \<Rightarrow> log_entry list \<Rightarrow> omp_event list \<Rightarrow> omp_state" where
  "state_two s lines evs = \<lparr> step = s, global_counter = s, file_lines = lines, omp_trace = evs \<rparr>"

lemma region_two_first:
  "parallel_region env_two cfg_two (state_two 0 lines evs) =
     Some ((state_two 0 [entry_two 0]
       (evs @ [Thread_line 0 0 2 4242, Thread_line 0 1 2 4242,
               Fopen ''state.txt'' Write_mode True, Pace_usleep 2000000])))"
  by (simp add: parallel_region_two)
    (simp add: single_block_def Let_def open_mode_def state_two_def entry_two_def cfg_two_def
      env_two_def)

lemma region_two_second:
  "parallel_region env_two cfg_two (state_two 1 lines evs) =
     Some ((state_two 1 (lines @ [entry_two 1])
       (evs @ [Thread_line 1 0 2 4242, Thread_line 1 1 2 4242,
               Fopen ''state.txt'' Append_mode True, Pace_usleep 2000000])))"
  by (simp add: parallel_region_two)
    (simp add: single_block_def Let_def open_mode_def state_two_def entry_two_def cfg_two_def
      env_two_def)

lemma state_two_advance:
  "(state_two s lines evs)\<lparr>step := step (state_two s lines evs) + 1,
      global_counter := global_counter (state_two s lines evs) + 1\<rparr> = state_two (s + 1) lines evs"
  by (simp add: state_two_def)

lemma loop_two_from_one:
  "omp_loop env_two cfg_two (state_two 1 lines evs) =
     Some (state_two 2 (lines @ [entry_two 1])
       (evs @ [Thread_line 1 0 2 4242, Thread_line 1 1 2 4242,
               Fopen ''state.txt'' Append_mode True, Pace_usleep 2000000]))"
proof -
  have lt: "step (state_two 1 lines evs) <s steps cfg_two"
    by (simp add: state_two_def cfg_two_def word_sless_alt)
  have "\<not> step (state_two 2 (lines @ [entry_two 1])
       (evs @ [Thread_line 1 0 2 4242, Thread_line 1 1 2 4242,
               Fopen ''state.txt'' Append_mode True, Pace_usleep 2000000])) <s steps cfg_two"
    by (simp add: state_two_def cfg_two_def word_sless_alt)
  from omp_loop_done [OF this] show ?thesis
    by (simp only: omp_loop_step [OF lt region_two_second] state_two_advance) simp
qed

lemma loop_two_from_zero:
  "omp_loop env_two cfg_two (state_two 0 lines evs) =
     Some (state_two 2 [entry_two 0, entry_two 1]
       (evs @ [Thread_line 0 0 2 4242, Thread_line 0 1 2 4242,
               Fopen ''state.txt'' Write_mode True, Pace_usleep 2000000,
               Thread_line 1 0 2 4242, Thread_line 1 1 2 4242,
               Fopen ''state.txt'' Append_mode True, Pace_usleep 2000000]))"
proof -
  have lt: "step (state_two 0 lines evs) <s steps cfg_two"
    by (simp add: state_two_def cfg_two_def word_sless_alt)
  show ?thesis
    by (simp only: omp_loop_step [OF lt region_two_first] state_two_advance) (simp add: loop_two_from_one)
qed

lemma run_two:
  "omp_main env_two opts_two lines =
     Some (0, \<lparr> step = 2, global_counter = 2,
                file_lines = [entry_two 0, entry_two 1],
                omp_trace =
                  [Banner 4242 2 (Some ''2''),
                   Thread_line 0 0 2 4242, Thread_line 0 1 2 4242,
                   Fopen ''state.txt'' Write_mode True, Pace_usleep 2000000,
                   Thread_line 1 0 2 4242, Thread_line 1 1 2 4242,
                   Fopen ''state.txt'' Append_mode True, Pace_usleep 2000000,
                   Done_line 2 2] \<rparr>)"
proof -
  have "omp_loop env_two cfg_two
      \<lparr> step = 0, global_counter = 0, file_lines = lines,
        omp_trace = [Banner (pid env_two) (max_threads env_two) (omp_num_threads env_two)] \<rparr>
      = omp_loop env_two cfg_two (state_two 0 lines [Banner 4242 2 (Some ''2'')])"
    by (simp add: state_two_def env_two_def)
  then show ?thesis
    by (simp add: omp_main_def parse_opts_two loop_two_from_zero)
      (simp add: state_two_def cfg_two_def)
qed

definition env_zero :: "string \<rightharpoonup> string" where
  "env_zero = [''MAX_STEPS'' \<mapsto> ''0'']"

lemma atoi_zero: "atoi ''0'' = 0"
  by (simp add: atoi_def strtol_sat_def is_space_def is_digit_def)

definition opts_bad_flag :: "(char \<times> string) list" where
  "opts_bad_flag = [(CHR ''s'', ''5''), (CHR ''?'', [])]"

lemma atoi_minus_seven: "atoi ''-7'' = - 7"
  by (simp add: atoi_def strtol_sat_def is_space_def is_digit_def)

definition env_negative :: "string \<rightharpoonup> string" where
  "env_negative = [''MAX_STEPS'' \<mapsto> ''-7'', ''SLEEP_MS'' \<mapsto> ''-3'']"

lemma gather_counter_update:
  assumes "r < length ps"
  shows "gather (map (compute_value c) (ps[r := (ps ! r)\<lparr>counter := x\<rparr>])) =
    gather (map (compute_value c) ps)"
proof (rule nth_equalityI)
  show "length (gather (map (compute_value c) (ps[r := (ps ! r)\<lparr>counter := x\<rparr>]))) =
    length (gather (map (compute_value c) ps))"
    by (simp add: gather_def)
next
  fix i assume "i < length (gather (map (compute_value c) (ps[r := (ps ! r)\<lparr>counter := x\<rparr>])))"
  then have i: "i < length ps" by (simp add: gather_def)
  show "gather (map (compute_value c) (ps[r := (ps ! r)\<lparr>counter := x\<rparr>])) ! i =
    gather (map (compute_value c) ps) ! i"
    using i by (cases "i = r") (simp_all add: gather_def compute_value_def)
qed

lemma world_step_counter_update:
  assumes r: "0 < r" "r < length ps" and q: "q < length ps" "q \<noteq> r"
  shows "world_step (ps[r := (ps ! r)\<lparr>counter := x\<rparr>]) ! q = world_step ps ! q"
proof -
  let ?ps = "ps[r := (ps ! r)\<lparr>counter := x\<rparr>]"
  have ne: "ps \<noteq> []" using r by auto
  have h: "hd ?ps = hd ps"
    using r ne by (simp add: hd_conv_nth)
  have n: "?ps ! q = ps ! q" using q by simp
  have l: "q < length ?ps" using q by simp
  show ?thesis
    by (simp only: world_step_nth_any [OF l] world_step_nth_any [OF q(1)] h n
        gather_counter_update [OF r(2)])
qed

section \<open>Pacing and work over whole runs\<close>

text \<open>The arguments of the \<^verbatim>\<open>usleep\<close> calls in a trace, in order.\<close>

fun sleeps :: "mpi_event list \<Rightarrow> 32 word list" where
  "sleeps [] = []"
| "sleeps (Usleep us # es) = us # sleeps es"
| "sleeps (e # es) = sleeps es"

lemma sleeps_append: "sleeps (xs @ ys) = sleeps xs @ sleeps ys"
  by (induction xs rule: sleeps.induct) simp_all

definition pace_of :: "cint \<Rightarrow> 32 word list" where
  "pace_of sl = (if 0 <s sl then [sl * 1000] else [])"

lemma sleeps_report_and_advance:
  "sleeps (trace (report_and_advance s g p)) = sleeps (trace p) @ pace_of (sleep_ms p)"
  by (simp add: report_and_advance_def Let_def pace_def print_summary_def sleeps_append pace_of_def)

lemma sleeps_world_step:
  assumes "lockstep c m sl ps" and "r < length ps"
  shows "sleeps (trace (world_step ps ! r)) = sleeps (trace (ps ! r)) @ pace_of sl"
  by (simp add: world_step_nth [OF assms] sleeps_report_and_advance compute_value_def
      lockstep_nth(5) [OF assms])

lemma mpi_loop_sleeps:
  assumes "lockstep c m sl ps" and "mpi_loop ps = Some ps'" and "r < length ps"
  shows "sleeps (trace (ps' ! r)) =
    sleeps (trace (ps ! r)) @ concat (map (\<lambda>_. pace_of sl) (step_range c m))"
  using assms
proof (induction "nat (sint m - sint c)" arbitrary: c ps)
  case 0
  then have nl: "\<not> c <s m" by (simp add: word_sless_alt)
  have ne: "ps \<noteq> []" using 0(2) by (simp add: lockstep_def)
  have "mpi_loop ps = Some ps"
    using ne lockstep_all_less [OF 0(2)] nl by (simp add: mpi_loop.simps)
  with 0(3) have "ps' = ps" by simp
  then show ?case using nl by (simp add: step_range_not_less)
next
  case (Suc k)
  then have lt: "c <s m" by (simp add: word_sless_alt)
  have ne: "ps \<noteq> []" using Suc(3) by (simp add: lockstep_def)
  have s1: "sint (c + 1) = sint c + 1" by (rule sint_succ_less [OF lt])
  have k: "k = nat (sint m - sint (c + 1))" using Suc(2) s1 by simp
  have ls: "lockstep (c + 1) m sl (world_step ps)" by (rule lockstep_world_step [OF Suc(3)])
  have unf: "mpi_loop (world_step ps) = Some ps'"
    using ne lockstep_all_less [OF Suc(3)] lt Suc(4) by (simp add: mpi_loop.simps)
  have r: "r < length (world_step ps)" using Suc(5) by (simp add: length_world_step)
  from Suc(1) [OF k ls unf r]
  have "sleeps (trace (ps' ! r)) = sleeps (trace (world_step ps ! r)) @
      concat (map (\<lambda>_. pace_of sl) (step_range (c + 1) m))" .
  then show ?case
    by (simp add: sleeps_world_step [OF Suc(3) Suc(5)] step_range_less [OF lt])
qed

lemma sleeps_finish: "sleeps (trace (finish p)) = sleeps (trace p)"
  by (simp add: finish_def Let_def sleeps_append)

lemma length_step_range_zero:
  fixes m :: cint
  shows "length (step_range 0 m) = nat (sint m)"
  by (simp add: step_range_def)

lemma concat_pace_of:
  "concat (map (\<lambda>_. pace_of sl) xs) = (if 0 <s sl then replicate (length xs) (sl * 1000) else [])"
  by (induction xs) (simp_all add: pace_of_def)

lemma sleeps_mpi_world:
  assumes "r < n"
  shows "sleeps (trace (mpi_world n hosts envs ! r)) = []"
  using assms by (simp add: mpi_world_def main_init_def)

lemma mpi_run_fresh_sleeps:
  assumes "0 < n" and "n < 2 ^ 31"
  shows "\<exists>ps'. mpi_run (mpi_world n hosts (\<lambda>_. env)) = Some ps' \<and> length ps' = n \<and>
     steps_printed (trace (hd ps')) = map word_of_int [0..sint (read_max_steps env) - 1] \<and>
     list_all (\<lambda>p. counter p = read_max_steps env \<and>
        sleeps (trace p) =
          (if 0 <s read_sleep_ms env
           then replicate (nat (sint (read_max_steps env))) (read_sleep_ms env * 1000) else [])) ps'"
proof -
  let ?W = "mpi_world n hosts (\<lambda>_. env)"
  let ?m = "read_max_steps env" and ?sl = "read_sleep_ms env"
  have ls: "lockstep 0 ?m ?sl ?W" by (rule lockstep_mpi_world [OF assms])
  have len: "length ?W = n" by (simp add: mpi_world_def)
  from mpi_loop_lockstep [OF ls] obtain qs where
    l: "mpi_loop ?W = Some qs" and lq: "length qs = n" and
    f: "lockstep (if 0 <s ?m then ?m else 0) ?m ?sl qs" and
    t: "trace (hd qs) = trace (hd ?W) @ concat (map (step_events (length ?W) ?sl) (step_range 0 ?m))"
    by (auto simp: len)
  have fm: "lockstep ?m ?m ?sl qs" using f read_max_steps_pos [of env] by simp
  have run: "mpi_run ?W = Some (map finish qs)" by (simp add: mpi_run_def l)
  have "steps_printed (trace (hd (map finish qs))) = step_range 0 ?m"
    using hd_map_finish [OF fm] t trace_hd_mpi_world [OF assms(1), of hosts "\<lambda>_. env"]
    by (simp add: steps_printed_append steps_printed_rounds)
  then have st: "steps_printed (trace (hd (map finish qs))) = map word_of_int [0..sint ?m - 1]"
    by (simp add: step_range_def)
  have "\<And>r. r < n \<Longrightarrow> counter (map finish qs ! r) = ?m \<and>
      sleeps (trace (map finish qs ! r)) =
        (if 0 <s ?sl then replicate (nat (sint ?m)) (?sl * 1000) else [])"
  proof -
    fix r assume r: "r < n"
    then have rq: "r < length qs" and rw: "r < length ?W" by (simp_all add: lq len)
    have "sleeps (trace (qs ! r)) = concat (map (\<lambda>_. pace_of ?sl) (step_range 0 ?m))"
      using mpi_loop_sleeps [OF ls l rw] sleeps_mpi_world [OF r, of hosts "\<lambda>_. env"] by simp
    then show "counter (map finish qs ! r) = ?m \<and>
      sleeps (trace (map finish qs ! r)) =
        (if 0 <s ?sl then replicate (nat (sint ?m)) (?sl * 1000) else [])"
      using rq lockstep_nth(3) [OF fm rq]
      by (simp add: counter_finish sleeps_finish concat_pace_of length_step_range_zero)
  qed
  then have "list_all (\<lambda>p. counter p = ?m \<and>
        sleeps (trace p) = (if 0 <s ?sl then replicate (nat (sint ?m)) (?sl * 1000) else []))
      (map finish qs)"
    by (simp add: list_all_length lq)
  with run st lq show ?thesis by simp
qed

text \<open>The arguments of the pacing \<^verbatim>\<open>usleep\<close> calls in a trace of the thread engine.\<close>

fun paces :: "omp_event list \<Rightarrow> 32 word list" where
  "paces [] = []"
| "paces (Pace_usleep us # es) = us # paces es"
| "paces (e # es) = paces es"

lemma paces_append: "paces (xs @ ys) = paces xs @ paces ys"
  by (induction xs rule: paces.induct) simp_all

lemma paces_thread_lines: "paces (map (\<lambda>tid. Thread_line s (f tid) n p) ts) = []"
  by (induction ts) simp_all

lemma paces_single_block:
  "paces (omp_trace (single_block env cfg nthreads st)) = paces (omp_trace st) @ [2000000]"
  by (simp add: single_block_def Let_def paces_append split: option.split)

lemma paces_parallel_region:
  assumes "parallel_region env cfg st = Some st'"
  shows "paces (omp_trace st') = paces (omp_trace st) @ [2000000]"
  by (simp add: parallel_region_Some [OF assms] paces_single_block paces_append paces_thread_lines)

lemma parallel_region_busy:
  assumes "parallel_region env cfg st = Some st'" and "tid < team_size env (step st)"
  shows "busy_work_ms (clock env (step st) tid) (work_ms cfg) = Some ()"
proof -
  have "list_all (\<lambda>tid. busy_work_ms (clock env (step st) tid) (work_ms cfg) \<noteq> None)
      [0..<team_size env (step st)]"
    using assms(1) by (simp add: parallel_region_def Let_def split: if_splits)
  then have "busy_work_ms (clock env (step st) tid) (work_ms cfg) \<noteq> None"
    using assms(2) by (simp add: list_all_iff)
  then show ?thesis by (cases "busy_work_ms (clock env (step st) tid) (work_ms cfg)") simp_all
qed

lemma parallel_region_returns:
  assumes "\<And>tid. tid < team_size env (step st) \<Longrightarrow>
      busy_work_ms (clock env (step st) tid) (work_ms cfg) = Some ()"
  shows "\<exists>st'. parallel_region env cfg st = Some st'"
  using assms by (simp add: parallel_region_def Let_def list_all_iff)

lemma omp_loop_returns:
  assumes "\<And>s tid. sint (step st) \<le> sint s \<Longrightarrow> sint s < sint (steps cfg) \<Longrightarrow>
      tid < team_size env s \<Longrightarrow> busy_work_ms (clock env s tid) (work_ms cfg) = Some ()"
  shows "\<exists>st'. omp_loop env cfg st = Some st'"
  using assms
proof (induction env cfg st rule: omp_loop.induct)
  case (1 env cfg st)
  show ?case
  proof (cases "step st <s steps cfg")
    case False
    then show ?thesis by (simp add: omp_loop_done)
  next
    case True
    then have lt: "sint (step st) < sint (steps cfg)" by (simp add: word_sless_alt)
    have "\<exists>x. parallel_region env cfg st = Some x"
      using lt by (intro parallel_region_returns "1.prems") simp_all
    then obtain x where x: "parallel_region env cfg st = Some x" by blast
    have sx: "step x = step st" by (rule step_parallel_region [OF x])
    have s1: "sint (step st + 1) = sint (step st) + 1" by (rule sint_succ_less [OF True])
    have "\<exists>st'. omp_loop env cfg (x\<lparr>step := step x + 1, global_counter := global_counter x + 1\<rparr>) = Some st'"
    proof (rule "1.IH" [OF True x])
      fix s tid
      assume "sint (step (x\<lparr>step := step x + 1, global_counter := global_counter x + 1\<rparr>)) \<le> sint s"
        and b: "sint s < sint (steps cfg)" and t: "tid < team_size env s"
      then have "sint (step st) \<le> sint s" by (simp add: sx s1)
      then show "busy_work_ms (clock env s tid) (work_ms cfg) = Some ()"
        using b t by (rule "1.prems")
    qed
    then show ?thesis by (simp add: omp_loop_step [OF True x])
  qed
qed

lemma omp_loop_paces:
  assumes l: "omp_loop env cfg st = Some st'" and s0: "step st = 0"
  shows "paces (omp_trace st') =
      paces (omp_trace st) @ replicate (nat (sint (steps cfg))) 2000000"
    and "\<And>s tid. 0 \<le> sint s \<Longrightarrow> sint s < sint (steps cfg) \<Longrightarrow> tid < team_size env s \<Longrightarrow>
      busy_work_ms (clock env s tid) (work_ms cfg) = Some ()"
proof -
  let ?I = "\<lambda>s. 0 \<le> sint (step s) \<and>
    paces (omp_trace s) = paces (omp_trace st) @ replicate (nat (sint (step s))) 2000000 \<and>
    (\<forall>q tid. 0 \<le> sint q \<and> sint q < sint (step s) \<and> tid < team_size env q \<longrightarrow>
       busy_work_ms (clock env q tid) (work_ms cfg) = Some ())"
  have inv: "?I st' \<and> \<not> step st' <s steps cfg"
  proof (rule omp_loop_invariant [OF l, where I = ?I])
    show "?I st" by (auto simp: s0)
  next
    fix s s' assume i: "?I s" and lt: "step s <s steps cfg"
      and r: "parallel_region env cfg s = Some s'"
    have s1: "sint (step s + 1) = sint (step s) + 1" by (rule sint_succ_less [OF lt])
    have sx: "step s' = step s" by (rule step_parallel_region [OF r])
    have p: "paces (omp_trace s') = paces (omp_trace s) @ [2000000]"
      by (rule paces_parallel_region [OF r])
    have i0: "0 \<le> sint (step s)" using i by blast
    have n: "nat (sint (step s) + 1) = Suc (nat (sint (step s)))" using i0 by arith
    have b: "\<forall>q tid. 0 \<le> sint q \<and> sint q < sint (step s) + 1 \<and> tid < team_size env q \<longrightarrow>
       busy_work_ms (clock env q tid) (work_ms cfg) = Some ()"
    proof (intro allI impI)
      fix q tid assume a: "0 \<le> sint q \<and> sint q < sint (step s) + 1 \<and> tid < team_size env q"
      show "busy_work_ms (clock env q tid) (work_ms cfg) = Some ()"
      proof (cases "sint q < sint (step s)")
        case True
        with a i show ?thesis by blast
      next
        case False
        with a have "sint q = sint (step s)" by simp
        then have "q = step s" by (rule signed_word_eqI)
        with a parallel_region_busy [OF r, of tid] show ?thesis by simp
      qed
    qed
    show "?I (s'\<lparr>step := step s' + 1, global_counter := global_counter s' + 1\<rparr>)"
      using i b by (simp add: sx s1 p n replicate_append_same)
  qed
  show "paces (omp_trace st') =
      paces (omp_trace st) @ replicate (nat (sint (steps cfg))) 2000000"
  proof (cases "0 \<le> sint (steps cfg)")
    case True
    then have "step st' = steps cfg"
      by (intro omp_loop_reaches_steps [OF l]) (simp add: s0)
    with inv show ?thesis by simp
  next
    case False
    then have "\<not> step st <s steps cfg" by (simp add: s0 word_sless_alt)
    then have "st' = st" using l by (simp add: omp_loop_done)
    with False show ?thesis by simp
  qed
  fix s tid
  assume a: "0 \<le> sint s" "sint s < sint (steps cfg)" "tid < team_size env s"
  then have "0 \<le> sint (steps cfg)" by simp
  then have "step st' = steps cfg"
    by (intro omp_loop_reaches_steps [OF l]) (simp add: s0)
  with inv a show "busy_work_ms (clock env s tid) (work_ms cfg) = Some ()" by simp
qed

lemma parse_opts_none: "parse_opts [] default_cfg = Inr default_cfg"
  by simp

lemma omp_main_paces:
  assumes p: "parse_opts opts default_cfg = Inr cfg"
    and m: "omp_main env opts file0 = Some (code, fin)"
  shows "paces (omp_trace fin) = replicate (nat (sint (steps cfg))) 2000000"
    and "\<And>s tid. 0 \<le> sint s \<Longrightarrow> sint s < sint (steps cfg) \<Longrightarrow> tid < team_size env s \<Longrightarrow>
      busy_work_ms (clock env s tid) (work_ms cfg) = Some ()"
proof -
  let ?init = "\<lparr> step = 0, global_counter = 0, file_lines = file0,
               omp_trace = [Banner (pid env) (max_threads env) (omp_num_threads env)] \<rparr>"
  from m obtain st1 where l: "omp_loop env cfg ?init = Some st1"
    and f: "fin = st1\<lparr>omp_trace := omp_trace st1 @ [Done_line (steps cfg) (global_counter st1)]\<rparr>"
    by (auto simp: omp_main_Inr [OF p] split: option.splits)
  have s0: "step ?init = 0" by simp
  show "paces (omp_trace fin) = replicate (nat (sint (steps cfg))) 2000000"
    using omp_loop_paces(1) [OF l s0] by (simp add: f paces_append)
  fix s tid
  assume "0 \<le> sint s" "sint s < sint (steps cfg)" "tid < team_size env s"
  then show "busy_work_ms (clock env s tid) (work_ms cfg) = Some ()"
    by (rule omp_loop_paces(2) [OF l s0])
qed

lemma omp_main_default_returns:
  assumes "\<And>s tid. 0 \<le> sint s \<Longrightarrow> sint s < 60 \<Longrightarrow> tid < team_size env s \<Longrightarrow>
      busy_work_ms (clock env s tid) 25 = Some ()"
  shows "\<exists>st. omp_main env [] file0 = Some (0, st) \<and> step st = 60 \<and> global_counter st = 60 \<and>
     paces (omp_trace st) = replicate 60 2000000 \<and> last (omp_trace st) = Done_line 60 60"
proof -
  let ?init = "\<lparr> step = 0, global_counter = 0, file_lines = file0,
               omp_trace = [Banner (pid env) (max_threads env) (omp_num_threads env)] \<rparr>"
  have "\<exists>st1. omp_loop env default_cfg ?init = Some st1"
    by (rule omp_loop_returns) (simp_all add: default_cfg_def assms)
  then obtain st1 where l: "omp_loop env default_cfg ?init = Some st1" by blast
  let ?fin = "st1\<lparr>omp_trace := omp_trace st1 @ [Done_line (steps default_cfg) (global_counter st1)]\<rparr>"
  have m: "omp_main env [] file0 = Some (0, ?fin)"
    by (simp add: omp_main_Inr [OF parse_opts_none] l)
  have s: "step st1 = steps default_cfg"
    by (rule omp_loop_reaches_steps [OF l]) (simp add: default_cfg_def)
  have d: "steps default_cfg = 60" by (simp add: default_cfg_def)
  have "0 \<le> sint (steps default_cfg)" by (simp add: d)
  note c = omp_main_counter [OF parse_opts_none this m]
  have p: "paces (omp_trace ?fin) = replicate (nat (sint (steps default_cfg))) 2000000"
    by (rule omp_main_paces(1) [OF parse_opts_none m])
  have "step ?fin = 60 \<and> global_counter ?fin = 60 \<and>
     paces (omp_trace ?fin) = replicate 60 2000000 \<and> last (omp_trace ?fin) = Done_line 60 60"
    using c p s by (simp add: d)
  with m show ?thesis by blast
qed

lemma read_env_negative: "read_max_steps env_negative = 1" "read_sleep_ms env_negative = 0"
  by (simp_all add: read_max_steps_def read_sleep_ms_def env_negative_def atoi_def strtol_sat_def
      is_space_def is_digit_def word_sless_alt)

lemma busy_env_two: "busy_work_ms (clock env_two s tid) 25 = Some ()"
  by (simp add: env_two_def busy_clock_seconds)

section \<open>The claims\<close>

text \<open>
  C1, as amended. At a step \<open>s \<ge> 0\<close> of a world of \<open>N\<close> processes in lockstep, when
  \<open>(N - 1) * (s + 1)\<close> is below \<open>2 ^ 31\<close> (no product leaves the range of \<^verbatim>\<open>int\<close>), the
  buffer gathered at rank 0 holds \<open>rank * (s + 1)\<close> for the ranks \<open>0..<N\<close> in order. With
  4 processes and \<^verbatim>\<open>MAX_STEPS=3\<close> rank 0 prints the sequences 0 1 2 3, then 0 2 4 6, then
  0 3 6 9 for the steps 0, 1, 2 and a finish line with 3 steps.
\<close>

theorem C1_gathered_products:
  "(lockstep s m sl ps \<and> 0 \<le> sint s \<and> int (length ps - 1) * (sint s + 1) < 2 ^ 31 \<longrightarrow>
      (\<exists>g. gather_buf (hd (world_step ps)) = Some g \<and>
           map sint g = map (\<lambda>r. int r * (sint s + 1)) [0..<length ps])) \<and>
   (\<exists>ps'. mpi_run (mpi_world 4 hosts envs_three) = Some ps' \<and>
      trace (hd ps') =
        [Printf_start 4 (hosts 0),
         Printf_step 0 [0, 1, 2, 3] None, Usleep 1000000,
         Printf_step 1 [0, 2, 4, 6] None, Usleep 1000000,
         Printf_step 2 [0, 3, 6, 9] None, Usleep 1000000,
         Printf_finish 3])"
proof
  show "lockstep s m sl ps \<and> 0 \<le> sint s \<and> int (length ps - 1) * (sint s + 1) < 2 ^ 31 \<longrightarrow>
      (\<exists>g. gather_buf (hd (world_step ps)) = Some g \<and>
           map sint g = map (\<lambda>r. int r * (sint s + 1)) [0..<length ps])"
  proof
    assume a: "lockstep s m sl ps \<and> 0 \<le> sint s \<and> int (length ps - 1) * (sint s + 1) < 2 ^ 31"
    then have l: "lockstep s m sl ps" by simp
    then have n: "length ps < 2 ^ 31" by (simp add: lockstep_def)
    have "map sint (products (length ps) s) = map (\<lambda>r. int r * (sint s + 1)) [0..<length ps]"
      using a by (intro sint_products [OF n]) simp_all
    with root_world_step(2) [OF l] show "\<exists>g. gather_buf (hd (world_step ps)) = Some g \<and>
           map sint g = map (\<lambda>r. int r * (sint s + 1)) [0..<length ps]"
      by simp
  qed
next
  from mpi_run_fresh [of 4 hosts env_three] obtain ps' where
    r: "mpi_run (mpi_world 4 hosts (\<lambda>_. env_three)) = Some ps'" and
    t: "trace (hd ps') = Printf_start (of_nat 4) (hosts 0)
              # concat (map (step_events 4 (read_sleep_ms env_three)) (step_range 0 (read_max_steps env_three)))
              @ [Printf_finish (read_max_steps env_three)]"
    by auto
  have "trace (hd ps') =
        [Printf_start 4 (hosts 0),
         Printf_step 0 [0, 1, 2, 3] None, Usleep 1000000,
         Printf_step 1 [0, 2, 4, 6] None, Usleep 1000000,
         Printf_step 2 [0, 3, 6, 9] None, Usleep 1000000,
         Printf_finish 3]"
    by (simp add: t read_env_three step_range_three step_events_def products_four word_sless_alt)
  with r show "\<exists>ps'. mpi_run (mpi_world 4 hosts envs_three) = Some ps' \<and>
      trace (hd ps') =
        [Printf_start 4 (hosts 0),
         Printf_step 0 [0, 1, 2, 3] None, Usleep 1000000,
         Printf_step 1 [0, 2, 4, 6] None, Usleep 1000000,
         Printf_step 2 [0, 3, 6, 9] None, Usleep 1000000,
         Printf_finish 3]"
    by (simp add: envs_three_const)
qed

theorem C1_gathered_products_witness:
  "lockstep 1 3 1000 (world_step (mpi_world 4 hosts_node envs_three)) \<and>
   0 \<le> sint (1 :: cint) \<and>
   int (length (world_step (mpi_world 4 hosts_node envs_three)) - 1) * (sint (1 :: cint) + 1) < 2 ^ 31 \<and>
   (\<exists>g. gather_buf (hd (world_step (world_step (mpi_world 4 hosts_node envs_three)))) = Some g \<and>
        map sint g = [0, 2, 4, 6])"
proof -
  have l1: "lockstep 1 3 1000 (world_step (mpi_world 4 hosts_node envs_three))"
    using lockstep_world_step [OF lockstep_world_three] by simp
  have len: "length (world_step (mpi_world 4 hosts_node envs_three)) = 4"
    by (simp add: length_world_step mpi_world_def)
  show ?thesis
    using l1 C1_gathered_products [of 1 3 1000 "world_step (mpi_world 4 hosts_node envs_three)" hosts_node]
    by (simp add: len upt_rec)
qed

text \<open>
  C1 as stated fails where a product overflows. With 3 processes, \<^verbatim>\<open>MAX_STEPS=2147483647\<close>
  and \<^verbatim>\<open>SLEEP_MS=0\<close> the run reaches step 1073741823, where rank 2 computes
  \<open>2 * 1073741824\<close> in 32 bits: the line printed for that step does not show
  2147483648, which no \<^verbatim>\<open>int\<close> can hold.
\<close>

theorem C1_counterexample:
  "Printf_step 1073741823 [0, 1073741824, - 2147483648] None
     \<in> set (trace (hd (the (mpi_run (mpi_world 3 hosts_node envs_long_run))))) \<and>
   sint (- 2147483648 :: cint) \<noteq> 2 * (1073741823 + 1)"
proof -
  have c: "envs_long_run = (\<lambda>_. env_long_run)"
    by (rule ext) (simp add: envs_long_run_def)
  from mpi_run_fresh [of 3 hosts_node env_long_run] obtain ps' where
    r: "mpi_run (mpi_world 3 hosts_node (\<lambda>_. env_long_run)) = Some ps'" and
    t: "trace (hd ps') = Printf_start (of_nat 3) (hosts_node 0)
              # concat (map (step_events 3 (read_sleep_ms env_long_run)) (step_range 0 (read_max_steps env_long_run)))
              @ [Printf_finish (read_max_steps env_long_run)]"
    by auto
  have m: "(1073741823 :: cint) \<in> set (step_range 0 2147483647)"
    by (rule step_range_mem) simp_all
  have e: "step_events 3 0 1073741823 = [Printf_step 1073741823 [0, 1073741824, - 2147483648] None]"
    by (simp add: step_events_def products_def upt_rec)
  have "Printf_step 1073741823 [0, 1073741824, - 2147483648] None
      \<in> set (concat (map (step_events 3 0) (step_range 0 2147483647)))"
    using m e by (simp only: set_concat set_map) force
  then have "Printf_step 1073741823 [0, 1073741824, - 2147483648] None \<in> set (trace (hd ps'))"
    by (simp add: t read_env_long_run)
  then show ?thesis by (simp add: c r)
qed

text \<open>
  C2, as amended. Process engine: a fresh run of \<open>N\<close> processes returns with every
  \<open>counter\<close> equal to \<open>max_steps\<close>, which the finish line reports, and each round
  raises the counter by exactly one without passing the bound. Thread engine: each
  iteration raises \<open>global_counter\<close> by exactly one without passing \<open>steps\<close>, and a run
  that completes with \<open>steps \<ge> 0\<close> ends with \<open>global_counter = steps\<close>, which the last
  line reports.
\<close>

theorem C2_counter_reaches_max_steps:
  "(0 < n \<and> n < 2 ^ 31 \<longrightarrow>
      (\<exists>ps'. mpi_run (mpi_world n hosts (\<lambda>_. env)) = Some ps' \<and>
         list_all (\<lambda>p. counter p = read_max_steps env) ps' \<and>
         last (trace (hd ps')) = Printf_finish (read_max_steps env))) \<and>
   (lockstep c m sl ps \<and> c <s m \<longrightarrow>
      lockstep (c + 1) m sl (world_step ps) \<and> sint (c + 1) = sint c + 1 \<and>
      sint (c + 1) \<le> sint m) \<and>
   (step st <s steps cfg \<and> global_counter st = step st \<and>
    parallel_region oenv cfg st = Some st' \<longrightarrow>
      omp_loop oenv cfg st =
        omp_loop oenv cfg (st'\<lparr>step := step st + 1, global_counter := global_counter st + 1\<rparr>) \<and>
      sint (global_counter st + 1) = sint (global_counter st) + 1 \<and>
      sint (global_counter st + 1) \<le> sint (steps cfg)) \<and>
   (parse_opts opts default_cfg = Inr cfg \<and> 0 \<le> sint (steps cfg) \<and>
    omp_main oenv opts file0 = Some (code, fin) \<longrightarrow>
      global_counter fin = steps cfg \<and>
      last (omp_trace fin) = Done_line (steps cfg) (steps cfg))"
proof (intro conjI impI)
  assume "0 < n \<and> n < 2 ^ 31"
  then have n: "0 < n" "n < 2 ^ 31" by simp_all
  from mpi_run_fresh [OF n, of hosts env] obtain ps' where
    r: "mpi_run (mpi_world n hosts (\<lambda>_. env)) = Some ps'" and
    c: "list_all (\<lambda>p. counter p = read_max_steps env \<and> max_steps p = read_max_steps env) ps'" and
    t: "trace (hd ps') = Printf_start (of_nat n) (hosts 0)
              # concat (map (step_events n (read_sleep_ms env)) (step_range 0 (read_max_steps env)))
              @ [Printf_finish (read_max_steps env)]"
    by blast
  have "list_all (\<lambda>p. counter p = read_max_steps env) ps'"
    using c by (simp add: list_all_iff)
  moreover have "last (trace (hd ps')) = Printf_finish (read_max_steps env)"
    by (simp add: t)
  ultimately show "\<exists>ps'. mpi_run (mpi_world n hosts (\<lambda>_. env)) = Some ps' \<and>
         list_all (\<lambda>p. counter p = read_max_steps env) ps' \<and>
         last (trace (hd ps')) = Printf_finish (read_max_steps env)"
    using r by blast
next
  assume a: "lockstep c m sl ps \<and> c <s m"
  then show "lockstep (c + 1) m sl (world_step ps)" by (simp add: lockstep_world_step)
  from a have lt: "c <s m" by simp
  show s: "sint (c + 1) = sint c + 1" by (rule sint_succ_less [OF lt])
  show "sint (c + 1) \<le> sint m" using lt by (simp add: s word_sless_alt)
next
  assume a: "step st <s steps cfg \<and> global_counter st = step st \<and>
    parallel_region oenv cfg st = Some st'"
  then have lt: "step st <s steps cfg" and g: "global_counter st = step st"
    and r: "parallel_region oenv cfg st = Some st'" by simp_all
  show "omp_loop oenv cfg st =
        omp_loop oenv cfg (st'\<lparr>step := step st + 1, global_counter := global_counter st + 1\<rparr>)"
    using omp_loop_step [OF lt r]
    by (simp add: step_parallel_region [OF r] global_counter_parallel_region [OF r])
  show s: "sint (global_counter st + 1) = sint (global_counter st) + 1"
    using sint_succ_less [OF lt] by (simp add: g)
  show "sint (global_counter st + 1) \<le> sint (steps cfg)"
    using lt sint_succ_less [OF lt] by (simp add: g word_sless_alt)
next
  assume a: "parse_opts opts default_cfg = Inr cfg \<and> 0 \<le> sint (steps cfg) \<and>
    omp_main oenv opts file0 = Some (code, fin)"
  then show "global_counter fin = steps cfg"
    using omp_main_counter(1) [of opts cfg oenv file0 code fin] by blast
  from a show "last (omp_trace fin) = Done_line (steps cfg) (steps cfg)"
    using omp_main_counter(2) [of opts cfg oenv file0 code fin] by blast
qed

theorem C2_counter_reaches_max_steps_witness:
  "(0::nat) < 4 \<and> (4::nat) < 2 ^ 31 \<and>
   (\<exists>ps'. mpi_run (mpi_world 4 hosts_node (\<lambda>_. env_three)) = Some ps' \<and>
      list_all (\<lambda>p. counter p = 3) ps' \<and> last (trace (hd ps')) = Printf_finish 3) \<and>
   lockstep 0 3 1000 (mpi_world 4 hosts_node envs_three) \<and> (0 :: cint) <s 3 \<and>
   lockstep 1 3 1000 (world_step (mpi_world 4 hosts_node envs_three)) \<and>
   step (state_two 0 [] []) <s steps cfg_two \<and>
   global_counter (state_two 0 [] []) = step (state_two 0 [] []) \<and>
   parallel_region env_two cfg_two (state_two 0 [] []) =
     Some (state_two 0 [entry_two 0]
       [Thread_line 0 0 2 4242, Thread_line 0 1 2 4242,
        Fopen ''state.txt'' Write_mode True, Pace_usleep 2000000]) \<and>
   sint (global_counter (state_two 0 [] []) + 1) = 1 \<and>
   parse_opts opts_two default_cfg = Inr cfg_two \<and> 0 \<le> sint (steps cfg_two) \<and>
   (\<exists>fin. omp_main env_two opts_two [] = Some (0, fin) \<and> global_counter fin = 2 \<and>
      last (omp_trace fin) = Done_line 2 2)"
proof -
  let ?st = "state_two 0 [] []"
  let ?st' = "state_two 0 [entry_two 0]
       [Thread_line 0 0 2 4242, Thread_line 0 1 2 4242,
        Fopen ''state.txt'' Write_mode True, Pace_usleep 2000000]"
  let ?fin = "\<lparr> step = 2, global_counter = 2,
                file_lines = [entry_two 0, entry_two 1],
                omp_trace =
                  [Banner 4242 2 (Some ''2''),
                   Thread_line 0 0 2 4242, Thread_line 0 1 2 4242,
                   Fopen ''state.txt'' Write_mode True, Pace_usleep 2000000,
                   Thread_line 1 0 2 4242, Thread_line 1 1 2 4242,
                   Fopen ''state.txt'' Append_mode True, Pace_usleep 2000000,
                   Done_line 2 2] \<rparr>"
  note c = C2_counter_reaches_max_steps [where n = 4 and hosts = hosts_node and env = env_three
      and c = 0 and m = 3 and sl = 1000 and ps = "mpi_world 4 hosts_node envs_three"
      and st = ?st and cfg = cfg_two and oenv = env_two and st' = ?st'
      and opts = opts_two and ?file0.0 = "[]" and code = 0 and fin = ?fin]
  have h1: "lockstep 0 3 1000 (mpi_world 4 hosts_node envs_three)" "(0 :: cint) <s 3"
    by (simp_all add: lockstep_world_three word_sless_alt)
  have h2: "step ?st <s steps cfg_two" "global_counter ?st = step ?st"
    "parallel_region env_two cfg_two ?st = Some ?st'"
    using region_two_first [of "[]" "[]"]
    by (simp_all add: state_two_def cfg_two_def word_sless_alt)
  have h3: "parse_opts opts_two default_cfg = Inr cfg_two" "0 \<le> sint (steps cfg_two)"
    "omp_main env_two opts_two [] = Some (0, ?fin)"
    by (simp_all add: parse_opts_two cfg_two_def run_two)
  have a: "\<exists>ps'. mpi_run (mpi_world 4 hosts_node (\<lambda>_. env_three)) = Some ps' \<and>
      list_all (\<lambda>p. counter p = 3) ps' \<and> last (trace (hd ps')) = Printf_finish 3"
    using c by (simp add: read_env_three)
  have b: "lockstep 1 3 1000 (world_step (mpi_world 4 hosts_node envs_three))"
    using c h1 by simp
  have d: "sint (global_counter ?st + 1) = 1"
    using c h2 by (simp add: state_two_def)
  have e: "\<exists>fin. omp_main env_two opts_two [] = Some (0, fin) \<and> global_counter fin = 2 \<and>
      last (omp_trace fin) = Done_line 2 2"
    using c h3 by (simp add: cfg_two_def)
  show ?thesis using h1 h2 h3(1,2) a b d e by simp
qed

text \<open>
  C2 as stated fails in the thread engine for a negative \<^verbatim>\<open>-s\<close>: with \<^verbatim>\<open>-s -5\<close> the run
  completes without a step, and the last line reports \<open>steps = -5\<close> with a counter of 0,
  which is not \<open>steps\<close> and lies above it.
\<close>

theorem C2_counterexample:
  "omp_main env_two [(CHR ''s'', ''-5'')] [] =
     Some (0, \<lparr> step = 0, global_counter = 0, file_lines = [],
                omp_trace = [Banner 4242 2 (Some ''2''), Done_line (- 5) 0] \<rparr>) \<and>
   (0 :: cint) \<noteq> - 5 \<and> (- 5 :: cint) <s 0"
proof -
  have p: "parse_opts [(CHR ''s'', ''-5'')] default_cfg = Inr (default_cfg\<lparr>steps := - 5\<rparr>)"
    by (simp add: atoi_def strtol_sat_def is_space_def is_digit_def)
  have "omp_loop env_two (default_cfg\<lparr>steps := - 5\<rparr>)
      \<lparr> step = 0, global_counter = 0, file_lines = [],
        omp_trace = [Banner (pid env_two) (max_threads env_two) (omp_num_threads env_two)] \<rparr>
    = Some \<lparr> step = 0, global_counter = 0, file_lines = [],
        omp_trace = [Banner (pid env_two) (max_threads env_two) (omp_num_threads env_two)] \<rparr>"
    by (rule omp_loop_done) (simp add: word_sless_alt)
  then show ?thesis
    by (simp add: omp_main_Inr [OF p] word_sless_alt) (simp add: env_two_def)
qed

text \<open>
  C3. A run of the process engine that goes on from a lockstep state with counter \<open>c\<close>
  and bound \<open>m\<close> returns, and the steps rank 0 prints from there on are exactly
  \<open>c, c + 1, \<dots>, m - 1\<close> in this order, after the steps printed before: step \<open>c - 1\<close> is not
  printed again and step \<open>c\<close> is not skipped.
\<close>

theorem C3_resume_continues:
  assumes "lockstep c m sl ps"
  shows "\<exists>ps'. mpi_run ps = Some ps' \<and>
           steps_printed (trace (hd ps')) =
             steps_printed (trace (hd ps)) @ map word_of_int [sint c..sint m - 1]"
proof -
  from mpi_run_lockstep [OF assms] obtain ps' where
    r: "mpi_run ps = Some ps'" and
    t: "trace (hd ps') = trace (hd ps) @ concat (map (step_events (length ps) sl) (step_range c m))
              @ [Printf_finish (if c <s m then m else c)]"
    by blast
  have "steps_printed (trace (hd ps')) = steps_printed (trace (hd ps)) @ step_range c m"
    by (simp add: t steps_printed_append steps_printed_rounds)
  with r show ?thesis by (simp add: step_range_def)
qed

theorem C3_resume_continues_witness:
  "lockstep 1 3 1000 (world_step (mpi_world 4 hosts_node envs_three)) \<and>
   steps_printed (trace (hd (world_step (mpi_world 4 hosts_node envs_three)))) = [0] \<and>
   (\<exists>ps'. mpi_run (world_step (mpi_world 4 hosts_node envs_three)) = Some ps' \<and>
      steps_printed (trace (hd ps')) = [0, 1, 2])"
proof -
  have l1: "lockstep 1 3 1000 (world_step (mpi_world 4 hosts_node envs_three))"
    using lockstep_world_step [OF lockstep_world_three] by simp
  have t: "steps_printed (trace (hd (world_step (mpi_world 4 hosts_node envs_three)))) = [0]"
    using root_world_step(1) [OF lockstep_world_three]
      trace_hd_mpi_world [of 4 hosts_node envs_three]
    by (simp add: steps_printed_append steps_printed_step_events)
  have u: "[1..2] = [1, 2 :: int]"
    by (simp add: upto_rec1)
  show ?thesis
    using l1 t C3_resume_continues [OF l1] by (simp add: u)
qed

text \<open>
  C4. The state file is opened for writing exactly when the loop index is 0, and this is
  the mode of the \<^verbatim>\<open>fopen\<close> of the single block; a successful write at any other index
  appends its line to the lines already there; and a loop that goes on from an index
  above 0 keeps every line the file had.
\<close>

theorem C4_log_open_mode:
  "(open_mode s = Write_mode \<longleftrightarrow> s = 0) \<and>
   (state_file cfg = Some path \<longrightarrow>
      omp_trace (single_block oenv cfg nthreads st) =
        omp_trace st @ [Fopen path (open_mode (step st)) (fopen_ok oenv (step st)),
                        Pace_usleep 2000000]) \<and>
   (state_file cfg = Some path \<and> fopen_ok oenv (step st) \<and> step st \<noteq> 0 \<longrightarrow>
      file_lines (single_block oenv cfg nthreads st) =
        file_lines st @ [\<lparr> log_ts = timestamp oenv (step st), log_step = step st,
                             log_counter = global_counter st, log_threads = nthreads \<rparr>]) \<and>
   (omp_loop oenv cfg st = Some st' \<and> 0 <s step st \<longrightarrow>
      (\<exists>new. file_lines st' = file_lines st @ new))"
proof (intro conjI impI)
  show "open_mode s = Write_mode \<longleftrightarrow> s = 0" by (simp add: open_mode_def)
next
  assume "state_file cfg = Some path"
  then show "omp_trace (single_block oenv cfg nthreads st) =
        omp_trace st @ [Fopen path (open_mode (step st)) (fopen_ok oenv (step st)),
                        Pace_usleep 2000000]"
    by (rule omp_trace_single_block)
next
  assume "state_file cfg = Some path \<and> fopen_ok oenv (step st) \<and> step st \<noteq> 0"
  then show "file_lines (single_block oenv cfg nthreads st) =
        file_lines st @ [\<lparr> log_ts = timestamp oenv (step st), log_step = step st,
                             log_counter = global_counter st, log_threads = nthreads \<rparr>]"
    by (simp add: file_lines_single_block)
next
  assume "omp_loop oenv cfg st = Some st' \<and> 0 <s step st"
  then show "\<exists>new. file_lines st' = file_lines st @ new"
    using omp_loop_retains [of oenv cfg st st'] by blast
qed

theorem C4_log_open_mode_witness:
  "state_file cfg_two = Some ''state.txt'' \<and>
   fopen_ok env_two (step (state_two 1 [entry_two 0] [])) \<and>
   step (state_two 1 [entry_two 0] []) \<noteq> 0 \<and>
   0 <s step (state_two 1 [entry_two 0] []) \<and>
   file_lines (single_block env_two cfg_two 2 (state_two 1 [entry_two 0] [])) =
     [entry_two 0, entry_two 1] \<and>
   omp_trace (single_block env_two cfg_two 2 (state_two 1 [entry_two 0] [])) =
     [Fopen ''state.txt'' Append_mode True, Pace_usleep 2000000] \<and>
   omp_loop env_two cfg_two (state_two 1 [entry_two 0] []) =
     Some (state_two 2 [entry_two 0, entry_two 1]
        [Thread_line 1 0 2 4242, Thread_line 1 1 2 4242,
         Fopen ''state.txt'' Append_mode True, Pace_usleep 2000000]) \<and>
   (\<exists>new. [entry_two 0, entry_two 1] = [entry_two 0] @ new)"
proof -
  let ?st = "state_two 1 [entry_two 0] []"
  let ?st' = "state_two 2 [entry_two 0, entry_two 1]
        [Thread_line 1 0 2 4242, Thread_line 1 1 2 4242,
         Fopen ''state.txt'' Append_mode True, Pace_usleep 2000000]"
  have h: "state_file cfg_two = Some ''state.txt''" "fopen_ok env_two (step ?st)"
    "step ?st \<noteq> 0" "0 <s step ?st"
    by (simp_all add: cfg_two_def env_two_def state_two_def word_sless_alt)
  have l: "omp_loop env_two cfg_two ?st = Some ?st'"
    using loop_two_from_one [of "[entry_two 0]" "[]"] by simp
  note c = C4_log_open_mode [of 1 cfg_two "''state.txt''" env_two 2 ?st ?st']
  have f: "file_lines (single_block env_two cfg_two 2 ?st) = [entry_two 0, entry_two 1]"
    using c h by (simp add: state_two_def entry_two_def env_two_def)
  have t: "omp_trace (single_block env_two cfg_two 2 ?st) =
     [Fopen ''state.txt'' Append_mode True, Pace_usleep 2000000]"
    using c h by (simp add: state_two_def env_two_def open_mode_def)
  have e: "\<exists>new. [entry_two 0, entry_two 1] = [entry_two 0] @ new"
    using c h l by (simp add: state_two_def)
  show ?thesis using h l f t e by simp
qed

text \<open>
  C5, as amended. In a round of the loop every process, the coordinator and each other
  worker alike, runs the same body on its own state and on what the two collectives
  deliver, and increments its own copy of \<open>counter\<close> by one at the end of the body,
  after the pacing delay. The copy of a worker other than the coordinator has no
  influence on any other process: the copy of rank 0, which is the step that is
  broadcast, is changed by rank 0 only.
\<close>

theorem C5_every_rank_increments:
  "(r < length ps \<longrightarrow>
      world_step ps ! r =
        report_and_advance (counter (hd ps)) (gather (map (compute_value (counter (hd ps))) ps))
          (compute_value (counter (hd ps)) (ps ! r)) \<and>
      counter (world_step ps ! r) = counter (ps ! r) + 1) \<and>
   (0 < r \<and> r < length ps \<and> q < length ps \<and> q \<noteq> r \<longrightarrow>
      world_step (ps[r := (ps ! r)\<lparr>counter := x\<rparr>]) ! q = world_step ps ! q)"
proof (intro conjI impI)
  assume r: "r < length ps"
  show "world_step ps ! r =
        report_and_advance (counter (hd ps)) (gather (map (compute_value (counter (hd ps))) ps))
          (compute_value (counter (hd ps)) (ps ! r))"
    by (rule world_step_nth_any [OF r])
  then show "counter (world_step ps ! r) = counter (ps ! r) + 1"
    by (simp add: counter_report_and_advance compute_value_def)
next
  assume "0 < r \<and> r < length ps \<and> q < length ps \<and> q \<noteq> r"
  then show "world_step (ps[r := (ps ! r)\<lparr>counter := x\<rparr>]) ! q = world_step ps ! q"
    by (intro world_step_counter_update) simp_all
qed

theorem C5_every_rank_increments_witness:
  "(0::nat) < 1 \<and> (1::nat) < length (mpi_world 2 hosts_node envs_default) \<and>
   (0::nat) < length (mpi_world 2 hosts_node envs_default) \<and> (0::nat) \<noteq> 1 \<and>
   rank (mpi_world 2 hosts_node envs_default ! 1) = 1 \<and>
   counter (mpi_world 2 hosts_node envs_default ! 1) = 0 \<and>
   counter (world_step (mpi_world 2 hosts_node envs_default) ! 1) = 1 \<and>
   world_step ((mpi_world 2 hosts_node envs_default)
       [1 := (mpi_world 2 hosts_node envs_default ! 1)\<lparr>counter := 7\<rparr>]) ! 0 =
     world_step (mpi_world 2 hosts_node envs_default) ! 0"
proof -
  let ?W = "mpi_world 2 hosts_node envs_default"
  have len: "(1::nat) < length ?W" "(0::nat) < length ?W" by (simp_all add: mpi_world_def)
  have p: "rank (?W ! 1) = 1 \<and> counter (?W ! 1) = 0"
    by (simp add: mpi_world_def main_init_def)
  note c = C5_every_rank_increments [of 1 ?W 0 7]
  from c len have i: "counter (world_step ?W ! 1) = counter (?W ! 1) + 1" by blast
  from c len have f: "world_step (?W[1 := (?W ! 1)\<lparr>counter := 7\<rparr>]) ! 0 = world_step ?W ! 0"
    by simp
  from len p i f show ?thesis by simp
qed

text \<open>
  C5 as stated fails: in a fresh world of two processes the worker of rank 1 changes its
  \<open>counter\<close> in the first round.
\<close>

theorem C5_counterexample:
  "rank (mpi_world 2 hosts_node envs_default ! 1) \<noteq> 0 \<and>
   counter (world_step (mpi_world 2 hosts_node envs_default) ! 1)
     \<noteq> counter (mpi_world 2 hosts_node envs_default ! 1)"
proof -
  have "counter (world_step (mpi_world 2 hosts_node envs_default) ! 1)
      = counter (mpi_world 2 hosts_node envs_default ! 1) + 1"
    by (simp add: world_step_nth_any counter_report_and_advance compute_value_def mpi_world_def)
  moreover have "rank (mpi_world 2 hosts_node envs_default ! 1) = 1 \<and>
      counter (mpi_world 2 hosts_node envs_default ! 1) = 0"
    by (simp add: mpi_world_def main_init_def)
  ultimately show ?thesis by simp
qed

text \<open>
  C6, as amended. The process engine raises a \<^verbatim>\<open>MAX_STEPS\<close> below 1 to 1 and a
  \<^verbatim>\<open>SLEEP_MS\<close> below 0 to 0. The thread engine takes the values of \<^verbatim>\<open>-s\<close> and \<^verbatim>\<open>-w\<close> as
  \<^verbatim>\<open>atoi\<close> returns them, without a clamp. After options that take a value, any other
  value of \<^verbatim>\<open>getopt\<close> prints the usage and ends the run, with exit code 0 for \<^verbatim>\<open>'h'\<close> and
  1 otherwise; and a run that ends with exit code 1 was given such a value.
\<close>

theorem C6_clamp_or_keep:
  "(env ''MAX_STEPS'' = Some v \<longrightarrow>
      read_max_steps env = (if atoi v <s 1 then 1 else atoi v) \<and> 1 \<le>s read_max_steps env) \<and>
   (env ''SLEEP_MS'' = Some v \<longrightarrow>
      read_sleep_ms env = (if atoi v <s 0 then 0 else atoi v) \<and> 0 \<le>s read_sleep_ms env) \<and>
   parse_opts ((CHR ''s'', v) # rest) cfg = parse_opts rest (cfg\<lparr>steps := atoi v\<rparr>) \<and>
   parse_opts ((CHR ''w'', v) # rest) cfg = parse_opts rest (cfg\<lparr>work_ms := atoi v\<rparr>) \<and>
   (list_all (\<lambda>(c, a). takes_value c) pre \<and> \<not> takes_value opt \<longrightarrow>
      omp_main oenv (pre @ (opt, a) # rest) file0 =
        Some (if opt = CHR ''h'' then 0 else 1,
              \<lparr> step = 0, global_counter = 0, file_lines = file0, omp_trace = [Usage] \<rparr>)) \<and>
   (omp_main oenv opts file0 = Some (1, st) \<longrightarrow>
      (\<exists>(c, a)\<in>set opts. \<not> takes_value c \<and> c \<noteq> CHR ''h''))"
proof (intro conjI impI)
  assume "env ''MAX_STEPS'' = Some v"
  then show "read_max_steps env = (if atoi v <s 1 then 1 else atoi v)"
    and "1 \<le>s read_max_steps env"
    by (simp_all add: read_max_steps_def Let_def word_sless_alt word_sle_eq)
next
  assume "env ''SLEEP_MS'' = Some v"
  then show "read_sleep_ms env = (if atoi v <s 0 then 0 else atoi v)"
    and "0 \<le>s read_sleep_ms env"
    by (simp_all add: read_sleep_ms_def Let_def word_sless_alt word_sle_eq)
next
  show "parse_opts ((CHR ''s'', v) # rest) cfg = parse_opts rest (cfg\<lparr>steps := atoi v\<rparr>)"
    by simp
  show "parse_opts ((CHR ''w'', v) # rest) cfg = parse_opts rest (cfg\<lparr>work_ms := atoi v\<rparr>)"
    by simp
next
  assume "list_all (\<lambda>(c, a). takes_value c) pre \<and> \<not> takes_value opt"
  then have "parse_opts (pre @ (opt, a) # rest) default_cfg = Inl (if opt = CHR ''h'' then 0 else 1)"
    by (intro parse_opts_rejects) simp_all
  then show "omp_main oenv (pre @ (opt, a) # rest) file0 =
        Some (if opt = CHR ''h'' then 0 else 1,
              \<lparr> step = 0, global_counter = 0, file_lines = file0, omp_trace = [Usage] \<rparr>)"
    by (rule omp_main_Inl)
next
  assume m: "omp_main oenv opts file0 = Some (1, st)"
  from omp_main_cases [OF m] have "parse_opts opts default_cfg = Inl 1" by auto
  then show "\<exists>(c, a)\<in>set opts. \<not> takes_value c \<and> c \<noteq> CHR ''h''"
    by (rule parse_opts_exit_one)
qed

theorem C6_clamp_or_keep_witness:
  "env_negative ''MAX_STEPS'' = Some ''-7'' \<and> read_max_steps env_negative = 1 \<and>
   list_all (\<lambda>(c, a). takes_value c) [(CHR ''s'', ''5'')] \<and> \<not> takes_value (CHR ''?'') \<and>
   omp_main env_two opts_bad_flag [] =
     Some (1, \<lparr> step = 0, global_counter = 0, file_lines = [], omp_trace = [Usage] \<rparr>) \<and>
   (\<exists>(c, a)\<in>set opts_bad_flag. \<not> takes_value c \<and> c \<noteq> CHR ''h'')"
proof -
  have e: "env_negative ''MAX_STEPS'' = Some ''-7''" by (simp add: env_negative_def)
  have t: "list_all (\<lambda>(c, a). takes_value c) [(CHR ''s'', ''5'')]" "\<not> takes_value (CHR ''?'')"
    by (simp_all add: takes_value_def)
  note c = C6_clamp_or_keep [where env = env_negative and v = "''-7''" and rest = "[]"
      and pre = "[(CHR ''s'', ''5'')]" and opt = "CHR ''?''" and oenv = env_two and a = "[]"
      and ?file0.0 = "[]" and opts = opts_bad_flag
      and st = "\<lparr> step = 0, global_counter = 0, file_lines = [], omp_trace = [Usage] \<rparr>"]
  have r: "read_max_steps env_negative = 1"
    using c e by (simp add: atoi_minus_seven word_sless_alt)
  have m: "omp_main env_two opts_bad_flag [] =
     Some (1, \<lparr> step = 0, global_counter = 0, file_lines = [], omp_trace = [Usage] \<rparr>)"
    using c t by (simp add: opts_bad_flag_def)
  have x: "\<exists>(c, a)\<in>set opts_bad_flag. \<not> takes_value c \<and> c \<noteq> CHR ''h''"
    using c m by blast
  show ?thesis using e r t m x by simp
qed

text \<open>
  C6 as stated fails in the thread engine: \<^verbatim>\<open>-s -5 -w -5\<close> is accepted and both values
  stay negative.
\<close>

theorem C6_counterexample:
  "parse_opts [(CHR ''s'', ''-5''), (CHR ''w'', ''-5'')] default_cfg =
     Inr \<lparr> steps = - 5, work_ms = - 5, state_file = None \<rparr> \<and>
   (- 5 :: cint) <s 0"
  by (simp add: default_cfg_def atoi_def strtol_sat_def is_space_def is_digit_def word_sless_alt)

text \<open>
  C7. With \<^verbatim>\<open>MAX_STEPS=0\<close> the process engine runs with a bound of 1 and executes
  exactly step 0. With \<^verbatim>\<open>-s 0\<close> the thread engine keeps 0 and executes no step: the run
  prints its banner and its last line and leaves the state file as it was.
\<close>

theorem C7_zero_max_steps:
  "(env ''MAX_STEPS'' = Some ''0'' \<and> 0 < n \<and> n < 2 ^ 31 \<longrightarrow>
      read_max_steps env = 1 \<and>
      (\<exists>ps'. mpi_run (mpi_world n hosts (\<lambda>_. env)) = Some ps' \<and>
         steps_printed (trace (hd ps')) = [0] \<and> list_all (\<lambda>p. counter p = 1) ps')) \<and>
   (parse_opts opts default_cfg = Inr cfg \<and> steps cfg = 0 \<longrightarrow>
      omp_main oenv opts file0 =
        Some (0, \<lparr> step = 0, global_counter = 0, file_lines = file0,
                   omp_trace = [Banner (pid oenv) (max_threads oenv) (omp_num_threads oenv),
                                Done_line 0 0] \<rparr>)) \<and>
   parse_opts [(CHR ''s'', ''0'')] default_cfg = Inr (default_cfg\<lparr>steps := 0\<rparr>)"
proof (intro conjI impI)
  assume a: "env ''MAX_STEPS'' = Some ''0'' \<and> 0 < n \<and> n < 2 ^ 31"
  then show m: "read_max_steps env = 1"
    by (simp add: read_max_steps_def atoi_zero word_sless_alt)
  from a have n: "0 < n" "n < 2 ^ 31" by simp_all
  from mpi_run_fresh [OF n, of hosts env] obtain ps' where
    r: "mpi_run (mpi_world n hosts (\<lambda>_. env)) = Some ps'" and
    c: "list_all (\<lambda>p. counter p = read_max_steps env \<and> max_steps p = read_max_steps env) ps'" and
    t: "trace (hd ps') = Printf_start (of_nat n) (hosts 0)
              # concat (map (step_events n (read_sleep_ms env)) (step_range 0 (read_max_steps env)))
              @ [Printf_finish (read_max_steps env)]"
    by blast
  have sr: "step_range 0 1 = [0]" by (simp add: step_range_def)
  have "steps_printed (trace (hd ps')) = [0]"
    by (simp add: t m sr steps_printed_append steps_printed_step_events)
  moreover have "list_all (\<lambda>p. counter p = 1) ps'"
    using c by (simp add: m list_all_iff)
  ultimately show "\<exists>ps'. mpi_run (mpi_world n hosts (\<lambda>_. env)) = Some ps' \<and>
         steps_printed (trace (hd ps')) = [0] \<and> list_all (\<lambda>p. counter p = 1) ps'"
    using r by blast
next
  assume a: "parse_opts opts default_cfg = Inr cfg \<and> steps cfg = 0"
  then have p: "parse_opts opts default_cfg = Inr cfg" and z: "steps cfg = 0" by simp_all
  have "omp_loop oenv cfg \<lparr> step = 0, global_counter = 0, file_lines = file0,
               omp_trace = [Banner (pid oenv) (max_threads oenv) (omp_num_threads oenv)] \<rparr>
     = Some \<lparr> step = 0, global_counter = 0, file_lines = file0,
               omp_trace = [Banner (pid oenv) (max_threads oenv) (omp_num_threads oenv)] \<rparr>"
    by (rule omp_loop_done) (simp add: z word_sless_alt)
  then show "omp_main oenv opts file0 =
        Some (0, \<lparr> step = 0, global_counter = 0, file_lines = file0,
                   omp_trace = [Banner (pid oenv) (max_threads oenv) (omp_num_threads oenv),
                                Done_line 0 0] \<rparr>)"
    by (simp add: omp_main_Inr [OF p] z)
next
  show "parse_opts [(CHR ''s'', ''0'')] default_cfg = Inr (default_cfg\<lparr>steps := 0\<rparr>)"
    by (simp add: atoi_zero)
qed

theorem C7_zero_max_steps_witness:
  "env_zero ''MAX_STEPS'' = Some ''0'' \<and> (0::nat) < 4 \<and> (4::nat) < 2 ^ 31 \<and>
   read_max_steps env_zero = 1 \<and>
   (\<exists>ps'. mpi_run (mpi_world 4 hosts_node (\<lambda>_. env_zero)) = Some ps' \<and>
      steps_printed (trace (hd ps')) = [0] \<and> list_all (\<lambda>p. counter p = 1) ps') \<and>
   parse_opts [(CHR ''s'', ''0'')] default_cfg = Inr (default_cfg\<lparr>steps := 0\<rparr>) \<and>
   steps (default_cfg\<lparr>steps := 0\<rparr>) = 0 \<and>
   omp_main env_two [(CHR ''s'', ''0'')] [] =
     Some (0, \<lparr> step = 0, global_counter = 0, file_lines = [],
                omp_trace = [Banner 4242 2 (Some ''2''), Done_line 0 0] \<rparr>)"
proof -
  have e: "env_zero ''MAX_STEPS'' = Some ''0''" by (simp add: env_zero_def)
  note c = C7_zero_max_steps [of env_zero 4 hosts_node "[(CHR ''s'', ''0'')]"
      "default_cfg\<lparr>steps := 0\<rparr>" env_two "[]"]
  have p: "parse_opts [(CHR ''s'', ''0'')] default_cfg = Inr (default_cfg\<lparr>steps := 0\<rparr>)"
    using c by blast
  have m: "omp_main env_two [(CHR ''s'', ''0'')] [] =
     Some (0, \<lparr> step = 0, global_counter = 0, file_lines = [],
                omp_trace = [Banner 4242 2 (Some ''2''), Done_line 0 0] \<rparr>)"
    using c p by (simp add: env_two_def)
  show ?thesis using e c p m by simp
qed

text \<open>
  C8. A fresh run of the process engine executes the steps \<open>0, \<dots>, max_steps - 1\<close> and
  every process calls \<^verbatim>\<open>usleep\<close> with \<open>sleep_ms * 1000\<close> (as an unsigned 32-bit value) after
  each of them, and not at all when \<open>sleep_ms\<close> is 0, where \<open>max_steps\<close> is
  120 when \<^verbatim>\<open>MAX_STEPS\<close> is not set and is raised to at least 1 when it is, and
  \<open>sleep_ms\<close> is 1000 when \<^verbatim>\<open>SLEEP_MS\<close> is not set and is raised to at least 0 when it is:
  without configuration the run has 120 steps and every process sleeps 120 times
  1000 * 1000 microseconds. A run of the thread engine without options returns exactly
  when the busy work of 25 ms returns in every thread of each of the 60 steps; it then
  has executed 60 steps and slept 60 times 2000 * 1000 microseconds. Whatever the options
  are, a run that completes has slept 2000 * 1000 microseconds once per step.
\<close>

theorem C8_defaults:
  "(0 < n \<and> n < 2 ^ 31 \<longrightarrow>
      (\<exists>ps'. mpi_run (mpi_world n hosts (\<lambda>_. env)) = Some ps' \<and> length ps' = n \<and>
         steps_printed (trace (hd ps')) = map word_of_int [0..sint (read_max_steps env) - 1] \<and>
         list_all (\<lambda>p. counter p = read_max_steps env \<and>
            sleeps (trace p) =
              (if 0 <s read_sleep_ms env
               then replicate (nat (sint (read_max_steps env))) (read_sleep_ms env * 1000)
               else [])) ps')) \<and>
   (env ''MAX_STEPS'' = None \<longrightarrow> read_max_steps env = 120) \<and>
   (\<forall>v. env ''MAX_STEPS'' = Some v \<longrightarrow>
      read_max_steps env = (if atoi v <s 1 then 1 else atoi v) \<and> 1 \<le>s read_max_steps env) \<and>
   (env ''SLEEP_MS'' = None \<longrightarrow> read_sleep_ms env = 1000) \<and>
   (\<forall>v. env ''SLEEP_MS'' = Some v \<longrightarrow>
      read_sleep_ms env = (if atoi v <s 0 then 0 else atoi v) \<and> 0 \<le>s read_sleep_ms env) \<and>
   (0 < n \<and> n < 2 ^ 31 \<and> env ''MAX_STEPS'' = None \<and> env ''SLEEP_MS'' = None \<longrightarrow>
      (\<exists>ps'. mpi_run (mpi_world n hosts (\<lambda>_. env)) = Some ps' \<and> length ps' = n \<and>
         steps_printed (trace (hd ps')) = map word_of_int [0..119] \<and>
         list_all (\<lambda>p. counter p = 120 \<and> sleeps (trace p) = replicate 120 (1000 * 1000)) ps')) \<and>
   ((\<forall>s tid. 0 \<le> sint s \<and> sint s < 60 \<and> tid < team_size oenv s \<longrightarrow>
        busy_work_ms (clock oenv s tid) 25 = Some ()) \<longrightarrow>
      (\<exists>st. omp_main oenv [] file0 = Some (0, st) \<and> step st = 60 \<and> global_counter st = 60 \<and>
         paces (omp_trace st) = replicate 60 (2000 * 1000) \<and>
         last (omp_trace st) = Done_line 60 60)) \<and>
   (omp_main oenv [] file0 = Some (code, fin) \<longrightarrow>
      (\<forall>s tid. 0 \<le> sint s \<and> sint s < 60 \<and> tid < team_size oenv s \<longrightarrow>
         busy_work_ms (clock oenv s tid) 25 = Some ())) \<and>
   (parse_opts opts default_cfg = Inr cfg \<and> omp_main oenv opts file1 = Some (code1, fin1) \<longrightarrow>
      paces (omp_trace fin1) = replicate (nat (sint (steps cfg))) (2000 * 1000))"
proof -
  have run: "0 < n \<and> n < 2 ^ 31 \<longrightarrow>
      (\<exists>ps'. mpi_run (mpi_world n hosts (\<lambda>_. env)) = Some ps' \<and> length ps' = n \<and>
         steps_printed (trace (hd ps')) = map word_of_int [0..sint (read_max_steps env) - 1] \<and>
         list_all (\<lambda>p. counter p = read_max_steps env \<and>
            sleeps (trace p) =
              (if 0 <s read_sleep_ms env
               then replicate (nat (sint (read_max_steps env))) (read_sleep_ms env * 1000)
               else [])) ps')"
    using mpi_run_fresh_sleeps [of n hosts env] by blast
  have d1: "env ''MAX_STEPS'' = None \<longrightarrow> read_max_steps env = 120"
    by (simp add: read_max_steps_def)
  have d2: "env ''SLEEP_MS'' = None \<longrightarrow> read_sleep_ms env = 1000"
    by (simp add: read_sleep_ms_def)
  have c1: "\<forall>v. env ''MAX_STEPS'' = Some v \<longrightarrow>
      read_max_steps env = (if atoi v <s 1 then 1 else atoi v) \<and> 1 \<le>s read_max_steps env"
    by (simp add: read_max_steps_def Let_def word_sless_alt word_sle_eq)
  have c2: "\<forall>v. env ''SLEEP_MS'' = Some v \<longrightarrow>
      read_sleep_ms env = (if atoi v <s 0 then 0 else atoi v) \<and> 0 \<le>s read_sleep_ms env"
    by (simp add: read_sleep_ms_def Let_def word_sless_alt word_sle_eq)
  have def_run: "0 < n \<and> n < 2 ^ 31 \<and> env ''MAX_STEPS'' = None \<and> env ''SLEEP_MS'' = None \<longrightarrow>
      (\<exists>ps'. mpi_run (mpi_world n hosts (\<lambda>_. env)) = Some ps' \<and> length ps' = n \<and>
         steps_printed (trace (hd ps')) = map word_of_int [0..119] \<and>
         list_all (\<lambda>p. counter p = 120 \<and> sleeps (trace p) = replicate 120 (1000 * 1000)) ps')"
  proof
    assume a: "0 < n \<and> n < 2 ^ 31 \<and> env ''MAX_STEPS'' = None \<and> env ''SLEEP_MS'' = None"
    then have m: "read_max_steps env = 120" and s: "read_sleep_ms env = 1000"
      using d1 d2 by simp_all
    from a run obtain ps' where "mpi_run (mpi_world n hosts (\<lambda>_. env)) = Some ps'"
      "length ps' = n"
      "steps_printed (trace (hd ps')) = map word_of_int [0..sint (read_max_steps env) - 1]"
      "list_all (\<lambda>p. counter p = read_max_steps env \<and>
            sleeps (trace p) =
              (if 0 <s read_sleep_ms env
               then replicate (nat (sint (read_max_steps env))) (read_sleep_ms env * 1000)
               else [])) ps'"
      by blast
    then show "\<exists>ps'. mpi_run (mpi_world n hosts (\<lambda>_. env)) = Some ps' \<and> length ps' = n \<and>
         steps_printed (trace (hd ps')) = map word_of_int [0..119] \<and>
         list_all (\<lambda>p. counter p = 120 \<and> sleeps (trace p) = replicate 120 (1000 * 1000)) ps'"
      by (simp add: m s word_sless_alt)
  qed
  have t1: "(\<forall>s tid. 0 \<le> sint s \<and> sint s < 60 \<and> tid < team_size oenv s \<longrightarrow>
        busy_work_ms (clock oenv s tid) 25 = Some ()) \<longrightarrow>
      (\<exists>st. omp_main oenv [] file0 = Some (0, st) \<and> step st = 60 \<and> global_counter st = 60 \<and>
         paces (omp_trace st) = replicate 60 (2000 * 1000) \<and>
         last (omp_trace st) = Done_line 60 60)"
    using omp_main_default_returns [of oenv file0] by simp
  have t2: "omp_main oenv [] file0 = Some (code, fin) \<longrightarrow>
      (\<forall>s tid. 0 \<le> sint s \<and> sint s < 60 \<and> tid < team_size oenv s \<longrightarrow>
         busy_work_ms (clock oenv s tid) 25 = Some ())"
    using omp_main_paces(2) [OF parse_opts_none, of oenv file0 code fin]
    by (simp add: default_cfg_def)
  have t3: "parse_opts opts default_cfg = Inr cfg \<and> omp_main oenv opts file1 = Some (code1, fin1) \<longrightarrow>
      paces (omp_trace fin1) = replicate (nat (sint (steps cfg))) (2000 * 1000)"
    using omp_main_paces(1) [of opts cfg oenv file1 code1 fin1] by simp
  show ?thesis
    using run d1 c1 d2 c2 def_run t1 t2 t3 by blast
qed

theorem C8_defaults_witness:
  "(0::nat) < 4 \<and> (4::nat) < 2 ^ 31 \<and>
   (Map.empty :: string \<rightharpoonup> string) ''MAX_STEPS'' = None \<and>
   (Map.empty :: string \<rightharpoonup> string) ''SLEEP_MS'' = None \<and>
   (\<exists>ps'. mpi_run (mpi_world 4 hosts_node (\<lambda>_. Map.empty)) = Some ps' \<and> length ps' = 4 \<and>
      steps_printed (trace (hd ps')) = map word_of_int [0..119] \<and>
      list_all (\<lambda>p. counter p = 120 \<and> sleeps (trace p) = replicate 120 1000000) ps') \<and>
   env_negative ''MAX_STEPS'' = Some ''-7'' \<and> env_negative ''SLEEP_MS'' = Some ''-3'' \<and>
   (\<exists>ps'. mpi_run (mpi_world 4 hosts_node (\<lambda>_. env_negative)) = Some ps' \<and>
      steps_printed (trace (hd ps')) = [0] \<and>
      list_all (\<lambda>p. counter p = 1 \<and> sleeps (trace p) = []) ps') \<and>
   busy_work_ms (clock env_two 0 0) 25 = Some () \<and>
   busy_work_ms (clock env_two 59 1) 25 = Some () \<and>
   (\<exists>st. omp_main env_two [] [] = Some (0, st) \<and> step st = 60 \<and> global_counter st = 60 \<and>
      paces (omp_trace st) = replicate 60 2000000 \<and> last (omp_trace st) = Done_line 60 60) \<and>
   parse_opts opts_two default_cfg = Inr cfg_two \<and>
   (\<exists>fin. omp_main env_two opts_two [] = Some (0, fin) \<and>
      paces (omp_trace fin) = [2000000, 2000000])"
proof -
  let ?fin = "\<lparr> step = 2, global_counter = 2,
                file_lines = [entry_two 0, entry_two 1],
                omp_trace =
                  [Banner 4242 2 (Some ''2''),
                   Thread_line 0 0 2 4242, Thread_line 0 1 2 4242,
                   Fopen ''state.txt'' Write_mode True, Pace_usleep 2000000,
                   Thread_line 1 0 2 4242, Thread_line 1 1 2 4242,
                   Fopen ''state.txt'' Append_mode True, Pace_usleep 2000000,
                   Done_line 2 2] \<rparr>"
  note d = C8_defaults [where n = 4 and hosts = hosts_node and env = Map.empty
      and oenv = env_two and ?file0.0 = "[]" and opts = opts_two and cfg = cfg_two
      and ?file1.0 = "[]" and ?code1.0 = 0 and ?fin1.0 = ?fin]
  note g = C8_defaults [where n = 4 and hosts = hosts_node and env = env_negative]
  have a: "\<exists>ps'. mpi_run (mpi_world 4 hosts_node (\<lambda>_. Map.empty)) = Some ps' \<and> length ps' = 4 \<and>
      steps_printed (trace (hd ps')) = map word_of_int [0..119] \<and>
      list_all (\<lambda>p. counter p = 120 \<and> sleeps (trace p) = replicate 120 1000000) ps'"
    using d by simp
  have e: "env_negative ''MAX_STEPS'' = Some ''-7''" "env_negative ''SLEEP_MS'' = Some ''-3''"
    by (simp_all add: env_negative_def)
  have n4: "(0::nat) < 4 \<and> (4::nat) < 2 ^ 31" by simp
  from mp [OF conjunct1 [OF g] n4] obtain ps' where "mpi_run (mpi_world 4 hosts_node (\<lambda>_. env_negative)) = Some ps'"
    "steps_printed (trace (hd ps')) = map word_of_int [0..sint (read_max_steps env_negative) - 1]"
    "list_all (\<lambda>p. counter p = read_max_steps env_negative \<and>
            sleeps (trace p) =
              (if 0 <s read_sleep_ms env_negative
               then replicate (nat (sint (read_max_steps env_negative))) (read_sleep_ms env_negative * 1000)
               else [])) ps'"
    by blast
  then have b: "\<exists>ps'. mpi_run (mpi_world 4 hosts_node (\<lambda>_. env_negative)) = Some ps' \<and>
      steps_printed (trace (hd ps')) = [0] \<and>
      list_all (\<lambda>p. counter p = 1 \<and> sleeps (trace p) = []) ps'"
    by (simp add: read_env_negative)
  have w: "\<forall>s tid. 0 \<le> sint s \<and> sint s < 60 \<and> tid < team_size env_two s \<longrightarrow>
      busy_work_ms (clock env_two s tid) 25 = Some ()"
    by (simp add: busy_env_two)
  have c: "\<exists>st. omp_main env_two [] [] = Some (0, st) \<and> step st = 60 \<and> global_counter st = 60 \<and>
      paces (omp_trace st) = replicate 60 2000000 \<and> last (omp_trace st) = Done_line 60 60"
    using d w by simp
  have p: "parse_opts opts_two default_cfg = Inr cfg_two" by (rule parse_opts_two)
  have "paces (omp_trace ?fin) = replicate (nat (sint (steps cfg_two))) (2000 * 1000)"
    using d p run_two [of "[]"] by blast
  then have f: "\<exists>fin. omp_main env_two opts_two [] = Some (0, fin) \<and>
      paces (omp_trace fin) = [2000000, 2000000]"
    using run_two [of "[]"] by (simp add: cfg_two_def)
  show ?thesis using a e b c p f by (simp add: busy_env_two)
qed

text \<open>
  C9. The loop of the thread engine keeps \<open>step = global_counter\<close>: from a state where
  they agree, and so in every run of \<^verbatim>\<open>main\<close>, they agree at the end, and every line of
  the state file that was not there before has its \<open>STEP\<close> field equal to its
  \<open>global_counter\<close> field.
\<close>

theorem C9_step_equals_counter:
  "(omp_loop oenv cfg st0 = Some st1 \<and> step st0 = global_counter st0 \<longrightarrow>
      step st1 = global_counter st1 \<and>
      (\<forall>e\<in>set (file_lines st1). e \<in> set (file_lines st0) \<or> log_step e = log_counter e)) \<and>
   (omp_main oenv opts file0 = Some (code, st) \<longrightarrow>
      step st = global_counter st \<and>
      (\<forall>e\<in>set (file_lines st). e \<in> set file0 \<or> log_step e = log_counter e))"
proof (intro conjI impI)
  assume a: "omp_loop oenv cfg st0 = Some st1 \<and> step st0 = global_counter st0"
  then have "step st1 = global_counter st1 \<and>
      (\<forall>e\<in>set (file_lines st1). e \<in> set (file_lines st0) \<or> log_step e = log_counter e)"
    using omp_loop_step_is_counter [of oenv cfg st0 st1] by blast
  then show "step st1 = global_counter st1"
    and "\<forall>e\<in>set (file_lines st1). e \<in> set (file_lines st0) \<or> log_step e = log_counter e"
    by simp_all
next
  assume m: "omp_main oenv opts file0 = Some (code, st)"
  have "step st = global_counter st \<and>
      (\<forall>e\<in>set (file_lines st). e \<in> set file0 \<or> log_step e = log_counter e)"
    using omp_main_cases [OF m]
  proof (elim disjE exE conjE)
    fix c assume "st = \<lparr> step = 0, global_counter = 0, file_lines = file0, omp_trace = [Usage] \<rparr>"
    then show ?thesis by simp
  next
    fix cfg' st1
    assume l: "omp_loop oenv cfg' \<lparr> step = 0, global_counter = 0, file_lines = file0,
               omp_trace = [Banner (pid oenv) (max_threads oenv) (omp_num_threads oenv)] \<rparr> = Some st1"
      and s: "st = st1\<lparr>omp_trace := omp_trace st1 @ [Done_line (steps cfg') (global_counter st1)]\<rparr>"
    from omp_loop_step_is_counter [OF l] show ?thesis by (simp add: s)
  qed
  then show "step st = global_counter st"
    and "\<forall>e\<in>set (file_lines st). e \<in> set file0 \<or> log_step e = log_counter e"
    by simp_all
qed

theorem C9_step_equals_counter_witness:
  "omp_loop env_two cfg_two (state_two 0 [] []) =
      Some (state_two 2 [entry_two 0, entry_two 1]
        [Thread_line 0 0 2 4242, Thread_line 0 1 2 4242,
         Fopen ''state.txt'' Write_mode True, Pace_usleep 2000000,
         Thread_line 1 0 2 4242, Thread_line 1 1 2 4242,
         Fopen ''state.txt'' Append_mode True, Pace_usleep 2000000]) \<and>
   step (state_two 0 [] []) = global_counter (state_two 0 [] []) \<and>
   log_step (entry_two 0) = log_counter (entry_two 0) \<and>
   log_step (entry_two 1) = log_counter (entry_two 1) \<and>
   (\<exists>st. omp_main env_two opts_two [] = Some (0, st) \<and>
      file_lines st = [entry_two 0, entry_two 1] \<and> step st = global_counter st)"
proof -
  let ?evs = "[Thread_line 0 0 2 4242, Thread_line 0 1 2 4242,
         Fopen ''state.txt'' Write_mode True, Pace_usleep 2000000,
         Thread_line 1 0 2 4242, Thread_line 1 1 2 4242,
         Fopen ''state.txt'' Append_mode True, Pace_usleep 2000000]"
  have l: "omp_loop env_two cfg_two (state_two 0 [] []) =
      Some (state_two 2 [entry_two 0, entry_two 1] ?evs)"
    using loop_two_from_zero [of "[]" "[]"] by simp
  have s: "step (state_two 0 [] []) = global_counter (state_two 0 [] [])"
    by (simp add: state_two_def)
  from C9_step_equals_counter [of env_two cfg_two "state_two 0 [] []"
      "state_two 2 [entry_two 0, entry_two 1] ?evs" opts_two "[]" 0
      "\<lparr> step = 2, global_counter = 2, file_lines = [entry_two 0, entry_two 1],
         omp_trace = Banner 4242 2 (Some ''2'') # ?evs @ [Done_line 2 2] \<rparr>"] l s run_two [of "[]"]
  have "log_step (entry_two 0) = log_counter (entry_two 0) \<and>
      log_step (entry_two 1) = log_counter (entry_two 1)"
    by (simp add: state_two_def)
  with l s run_two [of "[]"] show ?thesis by simp
qed

text \<open>
  C10. On a monotonic clock \<^verbatim>\<open>busy_work_ms\<close> returns for every \<open>ms \<ge> 0\<close> as soon as some
  reading lies \<open>ms\<close> milliseconds after the first one. For \<open>ms < 0\<close> the target
  \<^verbatim>\<open>(uint64_t)ms * 1000\<close> wraps to at least \<open>2 ^ 64 - 2 ^ 31 * 1000\<close>, which the elapsed
  microseconds never reach: the call does not return.
\<close>

theorem C10_busy_work_terminates:
  assumes "monotonic_clock clk"
  shows "(0 \<le> sint ms \<and> (\<exists>k>0. nsec_of (clk 0) + sint ms * 1000000 \<le> nsec_of (clk k))
            \<longrightarrow> busy_work_ms clk ms = Some ()) \<and>
         (sint ms < 0 \<longrightarrow> busy_work_ms clk ms = None)"
proof (intro conjI impI)
  assume a: "0 \<le> sint ms \<and> (\<exists>k>0. nsec_of (clk 0) + sint ms * 1000000 \<le> nsec_of (clk k))"
  then obtain k where k: "0 < k" and p: "nsec_of (clk 0) + sint ms * 1000000 \<le> nsec_of (clk k)"
    by blast
  have ok: "timespec_ok (clk 0)" "timespec_ok (clk k)"
    using assms by (simp_all add: monotonic_clock_def)
  have "scast ms * 1000 \<le> elapsed_us (clk 0) (clk k)"
    using a p by (intro target_reached [OF ok]) simp_all
  then have "scast ms * 1000 \<le> elapsed_us (clk 0) (clk (1 + (k - 1)))"
    using k by simp
  then show "busy_work_ms clk ms = Some ()"
    unfolding busy_work_ms_def by (rule busy_poll_reaches)
next
  assume ms: "sint ms < 0"
  have "\<And>k. \<not> scast ms * 1000 \<le> elapsed_us (clk 0) (clk k)"
  proof -
    fix k
    have ok: "timespec_ok (clk 0)" "timespec_ok (clk k)"
      using assms by (simp_all add: monotonic_clock_def)
    show "\<not> scast ms * 1000 \<le> elapsed_us (clk 0) (clk k)"
      by (rule target_not_reached [OF ok monotonic_clock_start [OF assms] ms])
  qed
  then show "busy_work_ms clk ms = None"
    unfolding busy_work_ms_def by (rule busy_poll_never)
qed

theorem C10_busy_work_terminates_witness:
  "monotonic_clock clock_seconds \<and>
   0 \<le> sint (25 :: cint) \<and>
   nsec_of (clock_seconds 0) + sint (25 :: cint) * 1000000 \<le> nsec_of (clock_seconds 1) \<and>
   busy_work_ms clock_seconds 25 = Some () \<and>
   sint (- 1 :: cint) < 0 \<and>
   busy_work_ms clock_seconds (- 1) = None"
proof -
  have p: "nsec_of (clock_seconds 0) + sint (25 :: cint) * 1000000 \<le> nsec_of (clock_seconds 1)"
    by (simp add: nsec_of_def clock_seconds_def)
  then have e: "\<exists>k>0. nsec_of (clock_seconds 0) + sint (25 :: cint) * 1000000 \<le> nsec_of (clock_seconds k)"
    by (intro exI [of _ 1]) simp
  have a: "busy_work_ms clock_seconds 25 = Some ()"
    using C10_busy_work_terminates [OF monotonic_clock_seconds, of 25] e by simp
  have b: "busy_work_ms clock_seconds (- 1) = None"
    using C10_busy_work_terminates [OF monotonic_clock_seconds, of "- 1"] by simp
  show ?thesis using monotonic_clock_seconds p a b by simp
qed

end
